theory Spec2Isabelle
  imports Main "HOL-Library.Multiset"
begin

section \<open>Data model\<close>

text \<open>
  The splay tree of \<open>tree.go\<close>. A \<open>*Node\<close> of the source is either the null pointer
  or a struct with the fields \<open>Value\<close>, \<open>Left\<close> and \<open>Right\<close>. Every node is owned by
  exactly one parent slot (no operation leaves one pointer in two slots), so the heap
  reachable from a root is a tree and is modelled by the datatype below; an assignment
  to a field of a node is the construction of the node with that field replaced. A
  \<open>Tree\<close> is the struct with the single field \<open>Root\<close>; the empty tree has the null
  root.
\<close>

datatype 'a node = nil | Node (Value: 'a) (Left: "'a node") (Right: "'a node")

record 'a Tree =
  Root :: "'a node"

text \<open>
  The method \<open>Compare\<close> of the value type is a parameter \<open>Compare :: 'a \<Rightarrow> 'a \<Rightarrow> int\<close> of
  the operations; \<open>Compare a b\<close> is \<open>a.Compare(b)\<close>. The source only tests the sign of
  its result. The search key handed to \<open>splay\<close> is any object with a \<open>Compare\<close>
  method, so it is modelled by that method, a function \<open>'a \<Rightarrow> int\<close>: \<open>Compare v\<close> for
  a value \<open>v\<close>, and the constant functions below for the sentinels \<open>greatestValue\<close>
  and \<open>smallestValue\<close>.
\<close>

definition greatestValue :: "'a \<Rightarrow> int" where
  "greatestValue v = 1"

definition smallestValue :: "'a \<Rightarrow> int" where
  "smallestValue v = - 1"

text \<open>The value type of the tests, \<open>NumValue\<close>, an integer with the usual order.\<close>

definition NumValue_Compare :: "int \<Rightarrow> int \<Rightarrow> int" where
  "NumValue_Compare n x = (if n > x then 1 else if n < x then - 1 else 0)"

section \<open>The splay primitive\<close>

text \<open>
  \<open>splay v root\<close> returns the pointer that the source leaves in \<open>*root\<close>. The node
  \<open>n\<close> of the source is \<open>Node nv nl nr\<close>, its child \<open>n1\<close> is \<open>Node n1v n1l n1r\<close>, and
  \<open>n2\<close>, the node that the recursive call leaves in the slot of the grandchild, is
  \<open>Node n2v n2l n2r\<close>; each branch gives the new root after the assignments of that
  branch, in the order of the source. In the four recursive branches the source reads
  the fields of \<open>n2\<close>: the slot was not null before the recursive call, and
  \<open>splay_eq_nil\<close> below shows that it is not null afterwards, so the \<open>case\<close>
  expressions have no branch for \<open>nil\<close>.
\<close>

fun splay :: "('a \<Rightarrow> int) \<Rightarrow> 'a node \<Rightarrow> 'a node" where
  "splay v nil = nil"
| "splay v (Node nv nl nr) =
    (if v nv < 0 then
       (case nl of
          nil \<Rightarrow> Node nv nl nr
        | Node n1v n1l n1r \<Rightarrow>
            if v n1v > 0 \<and> n1r \<noteq> nil then
              (case splay v n1r of
                 Node n2v n2l n2r \<Rightarrow> Node n2v (Node n1v n1l n2l) (Node nv n2r nr))
            else if v n1v < 0 \<and> n1l \<noteq> nil then
              (case splay v n1l of
                 Node n2v n2l n2r \<Rightarrow> Node n2v n2l (Node n1v n2r (Node nv n1r nr)))
            else Node n1v n1l (Node nv n1r nr))
     else if v nv > 0 then
       (case nr of
          nil \<Rightarrow> Node nv nl nr
        | Node n1v n1l n1r \<Rightarrow>
            if v n1v < 0 \<and> n1l \<noteq> nil then
              (case splay v n1l of
                 Node n2v n2l n2r \<Rightarrow> Node n2v (Node nv nl n2l) (Node n1v n2r n1r))
            else if v n1v > 0 \<and> n1r \<noteq> nil then
              (case splay v n1r of
                 Node n2v n2l n2r \<Rightarrow> Node n2v (Node n1v (Node nv nl n1l) n2l) n2r)
            else Node n1v (Node nv nl n1l) n1r)
     else Node nv nl nr)"

section \<open>Operations of the tree\<close>

text \<open>
  \<open>Insert\<close> and \<open>Delete\<close> return the tree that the source leaves behind.
  \<open>Node rv rl rr\<close> is \<open>t.Root\<close> after the splay (not null, since the root was not null
  before), and \<open>Node mv ml mr\<close> is \<open>t.Root.Left\<close> after the splay toward the greatest
  sentinel; \<open>Delete\<close> overwrites the \<open>Right\<close> link of that node with \<open>t.Root.Right\<close>.
\<close>

definition Insert :: "('a \<Rightarrow> 'a \<Rightarrow> int) \<Rightarrow> 'a \<Rightarrow> 'a Tree \<Rightarrow> 'a Tree" where
  "Insert Compare v t =
    (if Root t = nil then t\<lparr>Root := Node v nil nil\<rparr>
     else
       (case splay (Compare v) (Root t) of
          Node rv rl rr \<Rightarrow>
            if Compare v rv < 0 then t\<lparr>Root := Node v rl (Node rv nil rr)\<rparr>
            else if Compare v rv > 0 then t\<lparr>Root := Node v (Node rv rl nil) rr\<rparr>
            else t\<lparr>Root := Node v rl (Node rv nil rr)\<rparr>))"

definition Delete :: "('a \<Rightarrow> 'a \<Rightarrow> int) \<Rightarrow> 'a \<Rightarrow> 'a Tree \<Rightarrow> 'a Tree" where
  "Delete Compare v t =
    (if Root t = nil then t
     else
       (case splay (Compare v) (Root t) of
          Node rv rl rr \<Rightarrow>
            if Compare v rv \<noteq> 0 then t\<lparr>Root := Node rv rl rr\<rparr>
            else if rl = nil then t\<lparr>Root := rr\<rparr>
            else
              (case splay greatestValue rl of
                 Node mv ml mr \<Rightarrow> t\<lparr>Root := Node mv ml rr\<rparr>)))"

text \<open>
  \<open>Height\<close> and \<open>Len\<close> return an \<open>int\<close> in the source. The results are counts of
  nodes, far below the range of \<open>int\<close> for any tree that fits in memory, and are
  modelled as natural numbers.
\<close>

fun height :: "'a node \<Rightarrow> nat" where
  "height nil = 0"
| "height (Node nv nl nr) =
    (if height nl > height nr then 1 + height nl else 1 + height nr)"

definition Height :: "'a Tree \<Rightarrow> nat" where
  "Height t = height (Root t)"

fun Len_node :: "'a node \<Rightarrow> nat" where
  "Len_node nil = 0"
| "Len_node (Node nv nl nr) = 1 + Len_node nl + Len_node nr"

definition Len :: "'a Tree \<Rightarrow> nat" where
  "Len t = Len_node (Root t)"

text \<open>The in-order sequence of the values of a subtree.\<close>

fun inorder :: "'a node \<Rightarrow> 'a list" where
  "inorder nil = []"
| "inorder (Node nv nl nr) = inorder nl @ nv # inorder nr"

section \<open>Iteration, minimum and maximum\<close>

text \<open>
  \<open>Min\<close> and \<open>Max\<close> (here \<open>Min_Tree\<close> and \<open>Max_Tree\<close>) only read the tree: they
  walk a local cursor down the left (right) links and assign to no field, so they are
  functions from the tree to the returned value. \<open>Min_loop nv nl\<close> is the loop \<open>for n.Left != nil { n = n.Left }\<close>
  followed by \<open>return n.Value\<close>, started at a node with value \<open>nv\<close> and left child
  \<open>nl\<close>. The parameter \<open>zeroVal\<close> is what the source returns for the empty tree:
  the zero value of the type parameter (\<open>var zeroVal T\<close>) in the generic version, the
  null interface value in the earlier one.
\<close>

fun Min_loop :: "'a \<Rightarrow> 'a node \<Rightarrow> 'a" where
  "Min_loop nv nil = nv"
| "Min_loop nv (Node lv ll lr) = Min_loop lv ll"

fun Max_loop :: "'a \<Rightarrow> 'a node \<Rightarrow> 'a" where
  "Max_loop nv nil = nv"
| "Max_loop nv (Node rv rl rr) = Max_loop rv rr"

definition Min_Tree :: "'a \<Rightarrow> 'a Tree \<Rightarrow> 'a" where
  "Min_Tree zeroVal t = (case Root t of nil \<Rightarrow> zeroVal | Node nv nl nr \<Rightarrow> Min_loop nv nl)"

definition Max_Tree :: "'a \<Rightarrow> 'a Tree \<Rightarrow> 'a" where
  "Max_Tree zeroVal t = (case Root t of nil \<Rightarrow> zeroVal | Node nv nl nr \<Rightarrow> Max_loop nv nr)"

text \<open>
  The visit function \<open>f\<close> of \<open>Iterate\<close> is a closure: besides returning the
  continue/stop signal it may change the state it captured. It is modelled as
  \<open>f :: 'a \<Rightarrow> 's \<Rightarrow> bool \<times> 's\<close> over the captured state \<open>'s\<close>, and the iteration
  threads that state through the calls in the order in which the source makes them.
\<close>

fun Iterate_node :: "('a \<Rightarrow> 's \<Rightarrow> bool \<times> 's) \<Rightarrow> 'a node \<Rightarrow> 's \<Rightarrow> bool \<times> 's" where
  "Iterate_node f nil s = (True, s)"
| "Iterate_node f (Node nv nl nr) s =
    (case (if nl \<noteq> nil then Iterate_node f nl s else (True, s)) of
       (False, s1) \<Rightarrow> (False, s1)
     | (True, s1) \<Rightarrow>
         (case f nv s1 of
            (False, s2) \<Rightarrow> (False, s2)
          | (True, s2) \<Rightarrow> if nr \<noteq> nil then Iterate_node f nr s2 else (True, s2)))"

definition Iterate :: "('a \<Rightarrow> 's \<Rightarrow> bool \<times> 's) \<Rightarrow> 'a Tree \<Rightarrow> 's \<Rightarrow> 's" where
  "Iterate f t s = snd (Iterate_node f (Root t) s)"

section \<open>Notions used by the specification\<close>

text \<open>
  The contract of \<open>Compare\<close>: the sign of \<open>Compare a b\<close> is the opposite of the sign of
  \<open>Compare b a\<close>, and \<open>\<le>\<close> (a non-positive result) is transitive.
\<close>

definition total_order :: "('a \<Rightarrow> 'a \<Rightarrow> int) \<Rightarrow> bool" where
  "total_order Compare \<longleftrightarrow>
     (\<forall>a b. Compare a b < 0 \<longleftrightarrow> 0 < Compare b a) \<and>
     (\<forall>a b c. Compare a b \<le> 0 \<longrightarrow> Compare b c \<le> 0 \<longrightarrow> Compare a c \<le> 0)"

text \<open>
  A search key is consistent with the order when its comparison results are monotone
  along the order. The key of a value and the sentinel keys are.
\<close>

definition monotone_key :: "('a \<Rightarrow> 'a \<Rightarrow> int) \<Rightarrow> ('a \<Rightarrow> int) \<Rightarrow> bool" where
  "monotone_key Compare v \<longleftrightarrow>
     (\<forall>x y. Compare x y \<le> 0 \<longrightarrow> (v x < 0 \<longrightarrow> v y < 0) \<and> (0 < v y \<longrightarrow> 0 < v x))"

text \<open>The ordering invariant, node by node.\<close>

fun bst :: "('a \<Rightarrow> 'a \<Rightarrow> int) \<Rightarrow> 'a node \<Rightarrow> bool" where
  "bst Compare nil = True"
| "bst Compare (Node nv nl nr) \<longleftrightarrow>
     bst Compare nl \<and> bst Compare nr \<and>
     (\<forall>x \<in> set (inorder nl). Compare x nv \<le> 0) \<and>
     (\<forall>x \<in> set (inorder nr). Compare x nv \<ge> 0)"

text \<open>The ordering invariant, on the in-order sequence.\<close>

definition non_descending :: "('a \<Rightarrow> 'a \<Rightarrow> int) \<Rightarrow> 'a list \<Rightarrow> bool" where
  "non_descending Compare xs = sorted_wrt (\<lambda>a b. Compare a b \<le> 0) xs"

text \<open>
  What the root of a splayed subtree satisfies: with the key below the root, every value
  left of the root is below the key; with the key above the root, every value right of
  it is above the key; with the key equal to the root, no value left of the root is
  above the key and no value right of it is below.
\<close>

definition root_bounds :: "('a \<Rightarrow> int) \<Rightarrow> 'a node \<Rightarrow> bool" where
  "root_bounds v n \<longleftrightarrow>
     (case n of
        nil \<Rightarrow> True
      | Node rv rl rr \<Rightarrow>
          (v rv < 0 \<longrightarrow> (\<forall>x\<in>set (inorder rl). 0 < v x)) \<and>
          (0 < v rv \<longrightarrow> (\<forall>x\<in>set (inorder rr). v x < 0)) \<and>
          (v rv = 0 \<longrightarrow> (\<forall>x\<in>set (inorder rl). 0 \<le> v x) \<and> (\<forall>x\<in>set (inorder rr). v x \<le> 0)))"

text \<open>
  The naive search path of a key: from the root, left where the key compares less, right
  where it compares greater, ending at a node that compares equal or at a missing child.
\<close>

fun search_path :: "('a \<Rightarrow> int) \<Rightarrow> 'a node \<Rightarrow> 'a list" where
  "search_path v nil = []"
| "search_path v (Node nv nl nr) =
     nv # (if v nv < 0 then search_path v nl else if 0 < v nv then search_path v nr else [])"

text \<open>Sequences of calls on a tree, and the tree they leave.\<close>

datatype 'a call = InsertCall 'a | DeleteCall 'a

fun apply_call :: "('a \<Rightarrow> 'a \<Rightarrow> int) \<Rightarrow> 'a Tree \<Rightarrow> 'a call \<Rightarrow> 'a Tree" where
  "apply_call Compare t (InsertCall x) = Insert Compare x t"
| "apply_call Compare t (DeleteCall x) = Delete Compare x t"

definition empty_Tree :: "'a Tree" where
  "empty_Tree = \<lparr>Root = nil\<rparr>"

definition run :: "('a \<Rightarrow> 'a \<Rightarrow> int) \<Rightarrow> 'a call list \<Rightarrow> 'a Tree \<Rightarrow> 'a Tree" where
  "run Compare calls t = foldl (apply_call Compare) t calls"

text \<open>The number of nodes of a subtree whose value compares equal to \<open>x\<close>.\<close>

fun count_equal :: "('a \<Rightarrow> 'a \<Rightarrow> int) \<Rightarrow> 'a \<Rightarrow> 'a node \<Rightarrow> nat" where
  "count_equal Compare x nil = 0"
| "count_equal Compare x (Node nv nl nr) =
     (if Compare nv x = 0 then 1 else 0) + count_equal Compare x nl + count_equal Compare x nr"

text \<open>A value is present when some node compares equal to it.\<close>

definition present :: "('a \<Rightarrow> 'a \<Rightarrow> int) \<Rightarrow> 'a \<Rightarrow> 'a Tree \<Rightarrow> bool" where
  "present Compare x t \<longleftrightarrow> 0 < count_equal Compare x (Root t)"

text \<open>
  The calls \<open>Insert(y)\<close> of a sequence with \<open>y\<close> equal to \<open>x\<close>, and the successful calls
  \<open>Delete(y)\<close> with \<open>y\<close> equal to \<open>x\<close>: a delete is successful when its value is
  present in the tree it is applied to.
\<close>

fun inserts_of :: "('a \<Rightarrow> 'a \<Rightarrow> int) \<Rightarrow> 'a \<Rightarrow> 'a call list \<Rightarrow> nat" where
  "inserts_of Compare x [] = 0"
| "inserts_of Compare x (InsertCall y # cs) =
     (if Compare y x = 0 then 1 else 0) + inserts_of Compare x cs"
| "inserts_of Compare x (DeleteCall y # cs) = inserts_of Compare x cs"

fun successful_deletes_of :: "('a \<Rightarrow> 'a \<Rightarrow> int) \<Rightarrow> 'a \<Rightarrow> 'a Tree \<Rightarrow> 'a call list \<Rightarrow> nat" where
  "successful_deletes_of Compare x t [] = 0"
| "successful_deletes_of Compare x t (InsertCall y # cs) =
     successful_deletes_of Compare x (Insert Compare y t) cs"
| "successful_deletes_of Compare x t (DeleteCall y # cs) =
     (if Compare y x = 0 \<and> present Compare y t then 1 else 0)
     + successful_deletes_of Compare x (Delete Compare y t) cs"

text \<open>The \<open>Insert\<close> calls of a sequence, and its successful \<open>Delete\<close> calls.\<close>

fun insert_calls :: "'a call list \<Rightarrow> nat" where
  "insert_calls [] = 0"
| "insert_calls (InsertCall y # cs) = 1 + insert_calls cs"
| "insert_calls (DeleteCall y # cs) = insert_calls cs"

fun successful_delete_calls :: "('a \<Rightarrow> 'a \<Rightarrow> int) \<Rightarrow> 'a Tree \<Rightarrow> 'a call list \<Rightarrow> nat" where
  "successful_delete_calls Compare t [] = 0"
| "successful_delete_calls Compare t (InsertCall y # cs) =
     successful_delete_calls Compare (Insert Compare y t) cs"
| "successful_delete_calls Compare t (DeleteCall y # cs) =
     (if present Compare y t then 1 else 0)
     + successful_delete_calls Compare (Delete Compare y t) cs"

text \<open>A loop over a list that calls \<open>f\<close> on each element and stops after the first call that returns false.\<close>

fun visit_all :: "('a \<Rightarrow> 's \<Rightarrow> bool \<times> 's) \<Rightarrow> 'a list \<Rightarrow> 's \<Rightarrow> bool \<times> 's" where
  "visit_all f [] s = (True, s)"
| "visit_all f (x # xs) s =
     (case f x s of (False, s1) \<Rightarrow> (False, s1) | (True, s1) \<Rightarrow> visit_all f xs s1)"

section \<open>Splaying keeps the in-order sequence\<close>

lemma splay_eq_nil: "splay v n = nil \<longleftrightarrow> n = nil"
  by (induction v n rule: splay.induct) (auto split: node.splits)

lemma inorder_splay: "inorder (splay v n) = inorder n"
proof (induction v n rule: splay.induct)
  case (1 v)
  show ?case by simp
next
  case (2 v nv nl nr)
  then show ?case
    by (auto simp: splay_eq_nil split: node.splits)
qed

section \<open>Order facts\<close>

lemma total_order_flip: "total_order C \<Longrightarrow> (C a b < 0) = (0 < C b a)"
  unfolding total_order_def by blast

lemma total_order_trans: "total_order C \<Longrightarrow> C a b \<le> 0 \<Longrightarrow> C b c \<le> 0 \<Longrightarrow> C a c \<le> 0"
  unfolding total_order_def by blast

lemma total_order_refl: "total_order C \<Longrightarrow> C a a = 0"
  using total_order_flip[of C a a] by auto

lemma total_order_ge: "total_order C \<Longrightarrow> (0 \<le> C a b) = (C b a \<le> 0)"
  using total_order_flip[of C a b] by auto

lemma total_order_eq: "total_order C \<Longrightarrow> (C a b = 0) = (C b a = 0)"
  using total_order_flip[of C a b] total_order_flip[of C b a] by auto

lemma monotone_key_Compare: 
  assumes "total_order C" shows "monotone_key C (C k)"
  unfolding monotone_key_def
proof (intro allI impI conjI)
  fix x y assume xy: "C x y \<le> 0"
  { assume "C k x < 0"
    show "C k y < 0"
    proof (rule ccontr)
      assume "\<not> C k y < 0"
      then have "C y k \<le> 0" using total_order_ge[OF assms, of k y] by simp
      with xy have "C x k \<le> 0" using total_order_trans[OF assms] by blast
      then show False using \<open>C k x < 0\<close> total_order_flip[OF assms, of k x] by simp
    qed }
  { assume "0 < C k y"
    show "0 < C k x"
    proof (rule ccontr)
      assume "\<not> 0 < C k x"
      then have "C k x \<le> 0" by simp
      with xy have "C k y \<le> 0" using total_order_trans[OF assms] by blast
      then show False using \<open>0 < C k y\<close> by simp
    qed }
qed

lemma monotone_key_greatestValue: "monotone_key C greatestValue"
  by (simp add: monotone_key_def greatestValue_def)


lemma key_left: "monotone_key C v \<Longrightarrow> \<forall>x\<in>S. C x a \<le> 0 \<Longrightarrow> 0 < v a \<Longrightarrow> \<forall>x\<in>S. 0 < v x"
  unfolding monotone_key_def by blast

lemma key_left0: "monotone_key C v \<Longrightarrow> \<forall>x\<in>S. C x a \<le> 0 \<Longrightarrow> 0 \<le> v a \<Longrightarrow> \<forall>x\<in>S. 0 \<le> v x"
  unfolding monotone_key_def by (metis linorder_not_less)

lemma key_right: "total_order C \<Longrightarrow> monotone_key C v \<Longrightarrow> \<forall>x\<in>S. 0 \<le> C x a \<Longrightarrow> v a < 0 \<Longrightarrow> \<forall>x\<in>S. v x < 0"
  unfolding monotone_key_def by (metis total_order_ge)

lemma key_right0: "total_order C \<Longrightarrow> monotone_key C v \<Longrightarrow> \<forall>x\<in>S. 0 \<le> C x a \<Longrightarrow> v a \<le> 0 \<Longrightarrow> \<forall>x\<in>S. v x \<le> 0"
  unfolding monotone_key_def by (metis total_order_ge linorder_not_less)

lemma set_inorder_splay: "splay v n = Node rv rl rr \<Longrightarrow> set (inorder n) = set (inorder rl) \<union> {rv} \<union> set (inorder rr)"
proof -
  assume "splay v n = Node rv rl rr"
  then have "inorder n = inorder (Node rv rl rr)"
    using inorder_splay[of v n] by simp
  then show ?thesis by auto
qed


lemma splay_branches [case_names nil eq lt_nil zigzag_l zigzig_l zig_l gt_nil zigzag_r zigzig_r zig_r]:
  fixes v :: "'a \<Rightarrow> int"
  assumes "Q nil"
    and "\<And>nv nl nr. \<not> v nv < 0 \<Longrightarrow> \<not> 0 < v nv \<Longrightarrow>
          splay v (Node nv nl nr) = Node nv nl nr \<Longrightarrow> Q (Node nv nl nr)"
    and "\<And>nv nr. v nv < 0 \<Longrightarrow>
          splay v (Node nv nil nr) = Node nv nil nr \<Longrightarrow> Q (Node nv nil nr)"
    and "\<And>nv n1v n1l n1r nr n2v n2l n2r.
          v nv < 0 \<Longrightarrow> 0 < v n1v \<Longrightarrow> n1r \<noteq> nil \<Longrightarrow> splay v n1r = Node n2v n2l n2r \<Longrightarrow>
          splay v (Node nv (Node n1v n1l n1r) nr) = Node n2v (Node n1v n1l n2l) (Node nv n2r nr) \<Longrightarrow>
          Q n1r \<Longrightarrow> Q (Node nv (Node n1v n1l n1r) nr)"
    and "\<And>nv n1v n1l n1r nr n2v n2l n2r.
          v nv < 0 \<Longrightarrow> v n1v < 0 \<Longrightarrow> n1l \<noteq> nil \<Longrightarrow> splay v n1l = Node n2v n2l n2r \<Longrightarrow>
          splay v (Node nv (Node n1v n1l n1r) nr) = Node n2v n2l (Node n1v n2r (Node nv n1r nr)) \<Longrightarrow>
          Q n1l \<Longrightarrow> Q (Node nv (Node n1v n1l n1r) nr)"
    and "\<And>nv n1v n1l n1r nr.
          v nv < 0 \<Longrightarrow> \<not> (0 < v n1v \<and> n1r \<noteq> nil) \<Longrightarrow> \<not> (v n1v < 0 \<and> n1l \<noteq> nil) \<Longrightarrow>
          splay v (Node nv (Node n1v n1l n1r) nr) = Node n1v n1l (Node nv n1r nr) \<Longrightarrow>
          Q (Node nv (Node n1v n1l n1r) nr)"
    and "\<And>nv nl. 0 < v nv \<Longrightarrow>
          splay v (Node nv nl nil) = Node nv nl nil \<Longrightarrow> Q (Node nv nl nil)"
    and "\<And>nv nl n1v n1l n1r n2v n2l n2r.
          0 < v nv \<Longrightarrow> v n1v < 0 \<Longrightarrow> n1l \<noteq> nil \<Longrightarrow> splay v n1l = Node n2v n2l n2r \<Longrightarrow>
          splay v (Node nv nl (Node n1v n1l n1r)) = Node n2v (Node nv nl n2l) (Node n1v n2r n1r) \<Longrightarrow>
          Q n1l \<Longrightarrow> Q (Node nv nl (Node n1v n1l n1r))"
    and "\<And>nv nl n1v n1l n1r n2v n2l n2r.
          0 < v nv \<Longrightarrow> 0 < v n1v \<Longrightarrow> n1r \<noteq> nil \<Longrightarrow> splay v n1r = Node n2v n2l n2r \<Longrightarrow>
          splay v (Node nv nl (Node n1v n1l n1r)) = Node n2v (Node n1v (Node nv nl n1l) n2l) n2r \<Longrightarrow>
          Q n1r \<Longrightarrow> Q (Node nv nl (Node n1v n1l n1r))"
    and "\<And>nv nl n1v n1l n1r.
          0 < v nv \<Longrightarrow> \<not> (v n1v < 0 \<and> n1l \<noteq> nil) \<Longrightarrow> \<not> (0 < v n1v \<and> n1r \<noteq> nil) \<Longrightarrow>
          splay v (Node nv nl (Node n1v n1l n1r)) = Node n1v (Node nv nl n1l) n1r \<Longrightarrow>
          Q (Node nv nl (Node n1v n1l n1r))"
  shows "Q n"
proof (induction n rule: measure_induct_rule[where f = size])
  case (less n)
  show ?case
  proof (cases n)
    case nil
    show ?thesis unfolding nil by (rule assms(1))
  next
    case n: (Node nv nl nr)
    show ?thesis
    proof (cases "v nv < 0")
      case lt: True
      show ?thesis
      proof (cases nl)
        case nil
        show ?thesis unfolding n nil using lt by (intro assms(3)) auto
      next
        case nl: (Node n1v n1l n1r)
        show ?thesis
        proof (cases "0 < v n1v \<and> n1r \<noteq> nil")
          case zz: True
          then obtain n2v n2l n2r where s: "splay v n1r = Node n2v n2l n2r"
            by (metis splay_eq_nil node.exhaust)
          have "Q n1r" by (rule less.IH) (simp add: n nl)
          then show ?thesis unfolding n nl using lt zz s
            by (intro assms(4)[of nv n1v n1r n2v n2l n2r]) auto
        next
          case nzz: False
          show ?thesis
          proof (cases "v n1v < 0 \<and> n1l \<noteq> nil")
            case zi: True
            then obtain n2v n2l n2r where s: "splay v n1l = Node n2v n2l n2r"
              by (metis splay_eq_nil node.exhaust)
            have "Q n1l" by (rule less.IH) (simp add: n nl)
            then show ?thesis unfolding n nl using lt nzz zi s
              by (intro assms(5)[of nv n1v n1l n2v n2l n2r]) auto
          next
            case nzi: False
            show ?thesis unfolding n nl using lt nzz nzi by (intro assms(6)) auto
          qed
        qed
      qed
    next
      case nlt: False
      show ?thesis
      proof (cases "0 < v nv")
        case False
        show ?thesis unfolding n using nlt False by (intro assms(2)) auto
      next
        case gt: True
        show ?thesis
        proof (cases nr)
          case nil
          show ?thesis unfolding n nil using nlt gt by (intro assms(7)) auto
        next
          case nr: (Node n1v n1l n1r)
          show ?thesis
          proof (cases "v n1v < 0 \<and> n1l \<noteq> nil")
            case zz: True
            then obtain n2v n2l n2r where s: "splay v n1l = Node n2v n2l n2r"
              by (metis splay_eq_nil node.exhaust)
            have "Q n1l" by (rule less.IH) (simp add: n nr)
            then show ?thesis unfolding n nr using nlt gt zz s
              by (intro assms(8)[of nv n1v n1l n2v n2l n2r]) auto
          next
            case nzz: False
            show ?thesis
            proof (cases "0 < v n1v \<and> n1r \<noteq> nil")
              case zi: True
              then obtain n2v n2l n2r where s: "splay v n1r = Node n2v n2l n2r"
                by (metis splay_eq_nil node.exhaust)
              have "Q n1r" by (rule less.IH) (simp add: n nr)
              then show ?thesis unfolding n nr using nlt gt nzz zi s
                by (intro assms(9)[of nv n1v n1r n2v n2l n2r]) auto
            next
              case nzi: False
              show ?thesis unfolding n nr using nlt gt nzz nzi by (intro assms(10)) auto
            qed
          qed
        qed
      qed
    qed
  qed
qed


lemma mono_neg: "monotone_key C v \<Longrightarrow> C x y \<le> 0 \<Longrightarrow> v x < 0 \<Longrightarrow> v y < 0"
  unfolding monotone_key_def by blast

lemma mono_pos: "monotone_key C v \<Longrightarrow> C x y \<le> 0 \<Longrightarrow> 0 < v y \<Longrightarrow> 0 < v x"
  unfolding monotone_key_def by blast

lemma mono_nonneg: "monotone_key C v \<Longrightarrow> C x y \<le> 0 \<Longrightarrow> 0 \<le> v y \<Longrightarrow> 0 \<le> v x"
  unfolding monotone_key_def by (metis linorder_not_less)

lemma mono_nonpos: "monotone_key C v \<Longrightarrow> C x y \<le> 0 \<Longrightarrow> v x \<le> 0 \<Longrightarrow> v y \<le> 0"
  unfolding monotone_key_def by (metis linorder_not_less)

lemma splay_root_bounds:
  assumes m: "monotone_key C v" and t: "total_order C"
  shows "bst C n \<Longrightarrow> root_bounds v (splay v n)"
proof (induction n rule: splay_branches[where v = v])
  case nil
  then show ?case by (simp add: root_bounds_def)
next
  case (eq nv nl nr)
  then show ?case using mono_nonneg[OF m] mono_nonpos[OF m] total_order_ge[OF t]
    by (auto simp: root_bounds_def)
next
  case (lt_nil nv nr)
  then show ?case by (simp add: root_bounds_def)
next
  case (zigzag_l nv n1v n1l n1r nr n2v n2l n2r)
  from zigzag_l.prems have b: "bst C n1r" "\<forall>x\<in>set (inorder n1l). C x n1v \<le> 0"
    "\<forall>x\<in>set (inorder nr). 0 \<le> C x nv" by auto
  have ih: "root_bounds v (Node n2v n2l n2r)"
    using zigzag_l.IH[OF b(1)] zigzag_l.hyps(4) by simp
  have L: "\<forall>x\<in>set (inorder n1l). 0 < v x"
    using key_left[OF m b(2) zigzag_l.hyps(2)] .
  have R: "\<forall>x\<in>set (inorder nr). v x < 0"
    using key_right[OF t m b(3) zigzag_l.hyps(1)] .
  show ?case unfolding zigzag_l.hyps(5)
    using ih L R zigzag_l.hyps(1,2) by (auto simp: root_bounds_def)
next
  case (zigzig_l nv n1v n1l n1r nr n2v n2l n2r)
  from zigzig_l.prems have b: "bst C n1l" "\<forall>x\<in>set (inorder n1r). 0 \<le> C x n1v"
    "\<forall>x\<in>set (inorder nr). 0 \<le> C x nv" by auto
  have ih: "root_bounds v (Node n2v n2l n2r)"
    using zigzig_l.IH[OF b(1)] zigzig_l.hyps(4) by simp
  have R1: "\<forall>x\<in>set (inorder n1r). v x < 0"
    using key_right[OF t m b(2) zigzig_l.hyps(2)] .
  have R: "\<forall>x\<in>set (inorder nr). v x < 0"
    using key_right[OF t m b(3) zigzig_l.hyps(1)] .
  show ?case unfolding zigzig_l.hyps(5)
    using ih R1 R zigzig_l.hyps(1,2) by (auto simp: root_bounds_def)
next
  case (zig_l nv n1v n1l n1r nr)
  from zig_l.prems have b: "\<forall>x\<in>set (inorder n1l). C x n1v \<le> 0"
    "\<forall>x\<in>set (inorder n1r). 0 \<le> C x n1v"
    "\<forall>x\<in>set (inorder nr). 0 \<le> C x nv" by auto
  have R: "\<forall>x\<in>set (inorder nr). v x < 0"
    using key_right[OF t m b(3) zig_l.hyps(1)] .
  have L0: "v n1v = 0 \<Longrightarrow> \<forall>x\<in>set (inorder n1l). 0 \<le> v x"
    using key_left0[OF m b(1)] by simp
  have R0: "v n1v = 0 \<Longrightarrow> \<forall>x\<in>set (inorder n1r). v x \<le> 0"
    using key_right0[OF t m b(2)] by simp
  show ?case unfolding zig_l.hyps(4)
    using R L0 R0 zig_l.hyps(1,2,3) by (auto simp: root_bounds_def)
next
  case (gt_nil nv nl)
  then show ?case by (simp add: root_bounds_def)
next
  case (zigzag_r nv nl n1v n1l n1r n2v n2l n2r)
  from zigzag_r.prems have b: "bst C n1l" "\<forall>x\<in>set (inorder nl). C x nv \<le> 0"
    "\<forall>x\<in>set (inorder n1r). 0 \<le> C x n1v" by auto
  have ih: "root_bounds v (Node n2v n2l n2r)"
    using zigzag_r.IH[OF b(1)] zigzag_r.hyps(4) by simp
  have L: "\<forall>x\<in>set (inorder nl). 0 < v x"
    using key_left[OF m b(2) zigzag_r.hyps(1)] .
  have R: "\<forall>x\<in>set (inorder n1r). v x < 0"
    using key_right[OF t m b(3) zigzag_r.hyps(2)] .
  show ?case unfolding zigzag_r.hyps(5)
    using ih L R zigzag_r.hyps(1,2) by (auto simp: root_bounds_def)
next
  case (zigzig_r nv nl n1v n1l n1r n2v n2l n2r)
  from zigzig_r.prems have b: "bst C n1r" "\<forall>x\<in>set (inorder nl). C x nv \<le> 0"
    "\<forall>x\<in>set (inorder n1l). C x n1v \<le> 0" by auto
  have ih: "root_bounds v (Node n2v n2l n2r)"
    using zigzig_r.IH[OF b(1)] zigzig_r.hyps(4) by simp
  have L: "\<forall>x\<in>set (inorder nl). 0 < v x"
    using key_left[OF m b(2) zigzig_r.hyps(1)] .
  have L1: "\<forall>x\<in>set (inorder n1l). 0 < v x"
    using key_left[OF m b(3) zigzig_r.hyps(2)] .
  show ?case unfolding zigzig_r.hyps(5)
    using ih L L1 zigzig_r.hyps(1,2) by (auto simp: root_bounds_def)
next
  case (zig_r nv nl n1v n1l n1r)
  from zig_r.prems have b: "\<forall>x\<in>set (inorder n1l). C x n1v \<le> 0"
    "\<forall>x\<in>set (inorder n1r). 0 \<le> C x n1v"
    "\<forall>x\<in>set (inorder nl). C x nv \<le> 0" by auto
  have L: "\<forall>x\<in>set (inorder nl). 0 < v x"
    using key_left[OF m b(3) zig_r.hyps(1)] .
  have L0: "v n1v = 0 \<Longrightarrow> \<forall>x\<in>set (inorder n1l). 0 \<le> v x"
    using key_left0[OF m b(1)] by simp
  have R0: "v n1v = 0 \<Longrightarrow> \<forall>x\<in>set (inorder n1r). v x \<le> 0"
    using key_right0[OF t m b(2)] by simp
  show ?case unfolding zig_r.hyps(4)
    using L L0 R0 zig_r.hyps(1,2,3) by (auto simp: root_bounds_def)
qed

section \<open>The ordering invariant under the operations\<close>

lemma bst_non_descending:
  assumes t: "total_order C"
  shows "bst C n = non_descending C (inorder n)"
proof (induction n)
  case nil
  show ?case by (simp add: non_descending_def)
next
  case (Node nv nl nr)
  have ge: "\<And>y. (0 \<le> C y nv) = (C nv y \<le> 0)" using total_order_ge[OF t] by simp
  have cross: "(\<forall>x\<in>set (inorder nl). C x nv \<le> 0) \<Longrightarrow> (\<forall>y\<in>set (inorder nr). C nv y \<le> 0)
     \<Longrightarrow> (\<forall>x\<in>set (inorder nl). \<forall>y\<in>set (inorder nr). C x y \<le> 0)"
    using total_order_trans[OF t] by blast
  show ?case using Node cross
    by (auto simp: non_descending_def sorted_wrt_append ge)
qed

lemma bst_splay: "total_order C \<Longrightarrow> bst C n \<Longrightarrow> bst C (splay v n)"
  by (simp add: bst_non_descending inorder_splay)

lemma Root_Insert_nil: "Root t = nil \<Longrightarrow> Root (Insert C x t) = Node x nil nil"
  by (simp add: Insert_def)

lemma Root_Insert_splay:
  "Root t \<noteq> nil \<Longrightarrow> splay (C x) (Root t) = Node rv rl rr \<Longrightarrow>
   Root (Insert C x t) =
     (if 0 < C x rv then Node x (Node rv rl nil) rr else Node x rl (Node rv nil rr))"
  by (simp add: Insert_def)

lemma splay_obtain:
  assumes "n \<noteq> nil"
  obtains rv rl rr where "splay v n = Node rv rl rr"
  using assms splay_eq_nil[of v n] by (cases "splay v n") auto

lemma bst_Insert:
  assumes t: "total_order C" and b: "bst C (Root t)"
  shows "bst C (Root (Insert C x t))"
proof (cases "Root t = nil")
  case True
  then show ?thesis by (simp add: Root_Insert_nil)
next
  case False
  then obtain rv rl rr where s: "splay (C x) (Root t) = Node rv rl rr"
    by (rule splay_obtain)
  have m: "monotone_key C (C x)" by (rule monotone_key_Compare[OF t])
  have bs: "bst C (Node rv rl rr)" using bst_splay[OF t b, of "C x"] s by simp
  have rb: "root_bounds (C x) (Node rv rl rr)"
    using splay_root_bounds[OF m t b] s by simp
  from bs have sub: "bst C rl" "bst C rr" "\<forall>y\<in>set (inorder rl). C y rv \<le> 0"
    "\<forall>y\<in>set (inorder rr). 0 \<le> C y rv" by auto
  have flip: "\<And>y. (C x y < 0) = (0 < C y x)" "\<And>y. (C y x < 0) = (0 < C x y)"
    "\<And>y. (0 \<le> C x y) = (C y x \<le> 0)" "\<And>y. (0 \<le> C y x) = (C x y \<le> 0)"
    using total_order_flip[OF t] total_order_ge[OF t] by auto
  consider (lt) "C x rv < 0" | (eq) "C x rv = 0" | (gt) "0 < C x rv" by linarith
  then show ?thesis
  proof cases
    case lt
    have R: "\<forall>y\<in>set (inorder rr). C x y < 0" using key_right[OF t m sub(4) lt] .
    have L: "\<forall>y\<in>set (inorder rl). 0 < C x y" using rb lt by (simp add: root_bounds_def)
    have 1: "\<forall>y\<in>set (inorder rl). C y x \<le> 0" using L flip(2) by force
    have 2: "\<forall>y\<in>set (inorder rr). 0 \<le> C y x" using R flip(1) by force
    have 3: "0 \<le> C rv x" using lt flip(1) by force
    show ?thesis using lt sub 1 2 3 by (simp add: Root_Insert_splay[where C = C and x = x, OF False s])
  next
    case eq
    have L: "\<forall>y\<in>set (inorder rl). 0 \<le> C x y" and R: "\<forall>y\<in>set (inorder rr). C x y \<le> 0"
      using rb eq by (simp_all add: root_bounds_def)
    have 1: "\<forall>y\<in>set (inorder rl). C y x \<le> 0" using L flip(3) by simp
    have 2: "\<forall>y\<in>set (inorder rr). 0 \<le> C y x" using R flip(4) by simp
    have 3: "0 \<le> C rv x" using eq flip(4) by simp
    show ?thesis using eq sub 1 2 3 by (simp add: Root_Insert_splay[where C = C and x = x, OF False s])
  next
    case gt
    have L: "\<forall>y\<in>set (inorder rl). 0 < C x y" using key_left[OF m sub(3) gt] .
    have R: "\<forall>y\<in>set (inorder rr). C x y < 0" using rb gt by (simp add: root_bounds_def)
    have 1: "\<forall>y\<in>set (inorder rl). C y x \<le> 0" using L flip(2) by force
    have 2: "\<forall>y\<in>set (inorder rr). 0 \<le> C y x" using R flip(1) by force
    have 3: "C rv x \<le> 0" using gt flip(2) by force
    show ?thesis using gt sub 1 2 3 by (simp add: Root_Insert_splay[where C = C and x = x, OF False s])
  qed
qed

lemma splay_greatestValue_Right:
  "splay greatestValue n = Node mv ml mr \<Longrightarrow> mr = nil"
  by (induction n arbitrary: mv ml mr rule: splay_branches[where v = greatestValue])
     (auto simp: greatestValue_def)

lemma Root_Delete_nil: "Root t = nil \<Longrightarrow> Delete C x t = t"
  by (simp add: Delete_def)

lemma Root_Delete_splay:
  "Root t \<noteq> nil \<Longrightarrow> splay (C x) (Root t) = Node rv rl rr \<Longrightarrow>
   Root (Delete C x t) =
     (if C x rv \<noteq> 0 then Node rv rl rr
      else if rl = nil then rr
      else Node (Value (splay greatestValue rl)) (Left (splay greatestValue rl)) rr)"
  using splay_eq_nil[of greatestValue rl]
  by (auto simp add: Delete_def split: node.splits)

lemma inorder_Delete:
  assumes "Root t \<noteq> nil" and s: "splay (C x) (Root t) = Node rv rl rr"
  shows "inorder (Root (Delete C x t)) =
     (if C x rv \<noteq> 0 then inorder rl @ rv # inorder rr else inorder rl @ inorder rr)"
proof (cases "C x rv = 0 \<and> rl \<noteq> nil")
  case True
  then obtain mv ml mr where g: "splay greatestValue rl = Node mv ml mr"
    by (metis splay_obtain)
  then have "mr = nil" by (rule splay_greatestValue_Right)
  with g have "inorder rl = inorder ml @ [mv]"
    using inorder_splay[of greatestValue rl] by simp
  then show ?thesis using True g by (simp add: Root_Delete_splay[where C = C and x = x, OF assms])
next
  case False
  then show ?thesis by (auto simp add: Root_Delete_splay[where C = C and x = x, OF assms])
qed

lemma inorder_splay_Node:
  "splay v n = Node rv rl rr \<Longrightarrow> inorder n = inorder rl @ rv # inorder rr"
  using inorder_splay[of v n] by simp

lemma bst_Delete:
  assumes t: "total_order C" and b: "bst C (Root t)"
  shows "bst C (Root (Delete C x t))"
proof (cases "Root t = nil")
  case True
  then show ?thesis using b by (simp add: Root_Delete_nil)
next
  case False
  then obtain rv rl rr where s: "splay (C x) (Root t) = Node rv rl rr"
    by (rule splay_obtain)
  have "non_descending C (inorder rl @ rv # inorder rr)"
    using b inorder_splay_Node[OF s] by (simp add: bst_non_descending[OF t])
  then have "non_descending C (inorder (Root (Delete C x t)))"
    unfolding inorder_Delete[where C = C and x = x, OF False s] 
    by (auto simp: non_descending_def sorted_wrt_append)
  then show ?thesis by (simp add: bst_non_descending[OF t])
qed

section \<open>Sequences of calls\<close>

lemma run_Nil: "run C [] t = t"
  by (simp add: run_def)

lemma run_Cons: "run C (c # cs) t = run C cs (apply_call C t c)"
  by (simp add: run_def)

lemma run_append: "run C (cs @ ds) t = run C ds (run C cs t)"
  by (simp add: run_def)

lemma bst_apply_call: "total_order C \<Longrightarrow> bst C (Root t) \<Longrightarrow> bst C (Root (apply_call C t c))"
  by (cases c) (simp_all add: bst_Insert bst_Delete)

lemma bst_run: "total_order C \<Longrightarrow> bst C (Root t) \<Longrightarrow> bst C (Root (run C cs t))"
  by (induction cs arbitrary: t) (simp_all add: run_Nil run_Cons bst_apply_call)

lemma bst_empty_Tree: "bst C (Root empty_Tree)"
  by (simp add: empty_Tree_def)

lemma total_order_NumValue: "total_order NumValue_Compare"
  by (auto simp: total_order_def NumValue_Compare_def)

section \<open>Length and in-order sequence\<close>

lemma Len_node_inorder: "Len_node n = length (inorder n)"
  by (induction n) auto

section \<open>Counting values\<close>

lemma count_equal_inorder:
  "count_equal C x n = length (filter (\<lambda>y. C y x = 0) (inorder n))"
  by (induction n) auto

lemma total_order_eq_trans:
  assumes t: "total_order C" and ab: "C a b = 0" and bc: "C b c = 0"
  shows "C a c = 0"
proof -
  have "C a c \<le> 0" using total_order_trans[OF t, of a b c] ab bc by simp
  moreover have "C c b = 0" "C b a = 0" using ab bc total_order_eq[OF t] by auto
  then have "C c a \<le> 0" using total_order_trans[OF t, of c b a] by simp
  then have "0 \<le> C a c" using total_order_ge[OF t] by simp
  ultimately show ?thesis by simp
qed

lemma inorder_Insert:
  "Root t \<noteq> nil \<Longrightarrow> splay (C x) (Root t) = Node rv rl rr \<Longrightarrow>
   inorder (Root (Insert C x t)) =
     (if 0 < C x rv then inorder rl @ rv # x # inorder rr else inorder rl @ x # rv # inorder rr)"
  by (simp add: Insert_def)

lemma count_equal_Insert:
  "count_equal C x (Root (Insert C y t)) =
   count_equal C x (Root t) + (if C y x = 0 then 1 else 0)"
proof (cases "Root t = nil")
  case True
  then show ?thesis by (simp add: Root_Insert_nil)
next
  case False
  then obtain rv rl rr where s: "splay (C y) (Root t) = Node rv rl rr"
    by (rule splay_obtain)
  show ?thesis
    unfolding count_equal_inorder inorder_Insert[where C = C and x = y, OF False s]
      inorder_splay_Node[OF s] by simp
qed

lemma Len_Insert: "Len (Insert C y t) = Len t + 1"
proof (cases "Root t = nil")
  case True
  then show ?thesis by (simp add: Len_def Root_Insert_nil)
next
  case False
  then obtain rv rl rr where s: "splay (C y) (Root t) = Node rv rl rr"
    by (rule splay_obtain)
  show ?thesis
    unfolding Len_def Len_node_inorder inorder_Insert[where C = C and x = y, OF False s]
      inorder_splay_Node[OF s] by simp
qed

lemma splay_finds:
  assumes t: "total_order C" and b: "bst C n" and s: "splay (C y) n = Node rv rl rr"
    and p: "0 < count_equal C y n"
  shows "C y rv = 0"
proof (rule ccontr)
  assume ne: "C y rv \<noteq> 0"
  have m: "monotone_key C (C y)" by (rule monotone_key_Compare[OF t])
  have bs: "bst C (Node rv rl rr)" using bst_splay[OF t b, of "C y"] s by simp
  then have sub: "\<forall>z\<in>set (inorder rl). C z rv \<le> 0" "\<forall>z\<in>set (inorder rr). 0 \<le> C z rv"
    by auto
  have rb: "root_bounds (C y) (Node rv rl rr)"
    using splay_root_bounds[OF m t b] s by simp
  have all: "\<forall>z\<in>set (inorder n). C y z \<noteq> 0"
  proof (cases "C y rv < 0")
    case True
    have "\<forall>z\<in>set (inorder rl). 0 < C y z" using rb True by (simp add: root_bounds_def)
    moreover have "\<forall>z\<in>set (inorder rr). C y z < 0" using key_right[OF t m sub(2) True] .
    ultimately show ?thesis using ne unfolding inorder_splay_Node[OF s] by fastforce
  next
    case False
    then have gt: "0 < C y rv" using ne by simp
    have "\<forall>z\<in>set (inorder rr). C y z < 0" using rb gt by (simp add: root_bounds_def)
    moreover have "\<forall>z\<in>set (inorder rl). 0 < C y z" using key_left[OF m sub(1) gt] .
    ultimately show ?thesis using ne unfolding inorder_splay_Node[OF s] by fastforce
  qed
  then have "\<forall>z\<in>set (inorder n). C z y \<noteq> 0" using total_order_eq[OF t] by blast
  then have "count_equal C y n = 0" by (simp add: count_equal_inorder)
  with p show False by simp
qed

lemma splay_root_in: "splay v n = Node rv rl rr \<Longrightarrow> rv \<in> set (inorder n)"
  by (simp add: inorder_splay_Node)

lemma count_equal_pos_iff: "0 < count_equal C x n \<longleftrightarrow> (\<exists>z\<in>set (inorder n). C z x = 0)"
  by (simp add: count_equal_inorder filter_empty_conv)

lemma Delete_root_match:
  assumes t: "total_order C" and b: "bst C (Root t)" and ne: "Root t \<noteq> nil"
    and s: "splay (C y) (Root t) = Node rv rl rr"
  shows "C y rv = 0 \<longleftrightarrow> present C y t"
proof
  assume "C y rv = 0"
  then have "C rv y = 0" using total_order_eq[OF t] by simp
  then show "present C y t" unfolding present_def count_equal_pos_iff
    using splay_root_in[OF s] by blast
next
  assume "present C y t"
  then show "C y rv = 0" unfolding present_def using splay_finds[OF t b s] by simp
qed

lemma count_equal_Delete:
  assumes t: "total_order C" and b: "bst C (Root t)"
  shows "count_equal C x (Root (Delete C y t)) + (if C y x = 0 \<and> present C y t then 1 else 0) =
   count_equal C x (Root t)"
proof (cases "Root t = nil")
  case True
  then show ?thesis by (simp add: Root_Delete_nil present_def)
next
  case False
  then obtain rv rl rr where s: "splay (C y) (Root t) = Node rv rl rr"
    by (rule splay_obtain)
  note m = Delete_root_match[OF t b False s]
  show ?thesis
  proof (cases "C y rv = 0")
    case True
    then have "C rv x = 0 \<longleftrightarrow> C y x = 0"
      using total_order_eq_trans[OF t, of y rv x] total_order_eq_trans[OF t, of rv y x]
        total_order_eq[OF t, of y rv] by blast
    then show ?thesis using True m
      unfolding count_equal_inorder inorder_Delete[where C = C and x = y, OF False s]
        inorder_splay_Node[OF s] by simp
  next
    case False
    then show ?thesis using m
      unfolding count_equal_inorder inorder_Delete[where C = C and x = y, OF \<open>Root t \<noteq> nil\<close> s]
        inorder_splay_Node[OF s] by simp
  qed
qed

lemma Len_Delete:
  assumes t: "total_order C" and b: "bst C (Root t)"
  shows "Len (Delete C y t) + (if present C y t then 1 else 0) = Len t"
proof (cases "Root t = nil")
  case True
  then show ?thesis by (simp add: Root_Delete_nil present_def)
next
  case False
  then obtain rv rl rr where s: "splay (C y) (Root t) = Node rv rl rr"
    by (rule splay_obtain)
  note m = Delete_root_match[OF t b False s]
  show ?thesis using m
      unfolding Len_def Len_node_inorder inorder_Delete[where C = C and x = y, OF False s]
        inorder_splay_Node[OF s] by simp
qed

lemma count_equal_run:
  assumes t: "total_order C"
  shows "bst C (Root t) \<Longrightarrow>
    count_equal C x (Root (run C cs t)) + successful_deletes_of C x t cs =
    count_equal C x (Root t) + inserts_of C x cs"
proof (induction cs arbitrary: t)
  case Nil
  show ?case by (simp add: run_Nil)
next
  case (Cons c cs)
  show ?case
  proof (cases c)
    case (InsertCall y)
    have "bst C (Root (Insert C y t))" using bst_Insert[OF t Cons.prems] .
    from Cons.IH[OF this] show ?thesis
      by (simp add: InsertCall run_Cons count_equal_Insert)
  next
    case (DeleteCall y)
    have "bst C (Root (Delete C y t))" using bst_Delete[OF t Cons.prems] .
    from Cons.IH[OF this] count_equal_Delete[OF t Cons.prems, of x y] show ?thesis
      by (simp add: DeleteCall run_Cons)
  qed
qed

lemma Len_run:
  assumes t: "total_order C"
  shows "bst C (Root t) \<Longrightarrow>
    Len (run C cs t) + successful_delete_calls C t cs = Len t + insert_calls cs"
proof (induction cs arbitrary: t)
  case Nil
  show ?case by (simp add: run_Nil)
next
  case (Cons c cs)
  show ?case
  proof (cases c)
    case (InsertCall y)
    have "bst C (Root (Insert C y t))" using bst_Insert[OF t Cons.prems] .
    from Cons.IH[OF this] show ?thesis
      by (simp add: InsertCall run_Cons Len_Insert)
  next
    case (DeleteCall y)
    have "bst C (Root (Delete C y t))" using bst_Delete[OF t Cons.prems] .
    from Cons.IH[OF this] Len_Delete[OF t Cons.prems, of y] show ?thesis
      by (simp add: DeleteCall run_Cons)
  qed
qed

lemma count_equal_empty_Tree: "count_equal C x (Root empty_Tree) = 0"
  by (simp add: empty_Tree_def)

lemma Len_empty_Tree: "Len empty_Tree = 0"
  by (simp add: empty_Tree_def Len_def)

lemma Delete_absent:
  assumes t: "total_order C" and a: "\<not> present C v t"
  shows "inorder (Root (Delete C v t)) = inorder (Root t)"
proof (cases "Root t = nil")
  case True
  then show ?thesis by (simp add: Root_Delete_nil)
next
  case False
  then obtain rv rl rr where s: "splay (C v) (Root t) = Node rv rl rr"
    by (rule splay_obtain)
  have "C rv v \<noteq> 0" using a splay_root_in[OF s]
    unfolding present_def count_equal_pos_iff by blast
  then have "C v rv \<noteq> 0" using total_order_eq[OF t] by blast
  then show ?thesis
    unfolding inorder_Delete[where C = C and x = v, OF False s] inorder_splay_Node[OF s]
    by simp
qed

lemma count_equal_inserts:
  "count_equal C x (Root (run C (map InsertCall xs) t)) =
   count_equal C x (Root t) + length (filter (\<lambda>y. C y x = 0) xs)"
  by (induction xs arbitrary: t) (simp_all add: run_Nil run_Cons count_equal_Insert)

lemma bst_inserts:
  "total_order C \<Longrightarrow> bst C (Root (run C (map InsertCall xs) empty_Tree))"
  by (rule bst_run[OF _ bst_empty_Tree])

lemma count_equal_zero_nil:
  assumes t: "total_order C" and z: "\<And>x. count_equal C x n = 0"
  shows "n = nil"
proof (cases n)
  case nil
  then show ?thesis .
next
  case (Node nv nl nr)
  then have "0 < count_equal C nv n" by (simp add: total_order_refl[OF t])
  with z[of nv] show ?thesis by simp
qed

lemma deletes_all:
  assumes t: "total_order C"
  shows "bst C (Root t) \<Longrightarrow>
    (\<And>x. count_equal C x (Root t) = length (filter (\<lambda>y. C y x = 0) ys)) \<Longrightarrow>
    Root (run C (map DeleteCall ys) t) = nil"
proof (induction ys arbitrary: t)
  case Nil
  then show ?case using count_equal_zero_nil[OF t, of "Root t"] by (simp add: run_Nil)
next
  case (Cons y ys)
  have p: "present C y t"
    unfolding present_def using Cons.prems(2)[of y] by (simp add: total_order_refl[OF t])
  have b: "bst C (Root (Delete C y t))" using bst_Delete[OF t Cons.prems(1)] .
  have c: "count_equal C x (Root (Delete C y t)) = length (filter (\<lambda>y. C y x = 0) ys)" for x
    using count_equal_Delete[OF t Cons.prems(1), of x y] p Cons.prems(2)[of x] by (simp split: if_splits)
  show ?case using Cons.IH[OF b c] by (simp add: run_Cons)
qed

lemma length_filter_mset: "mset xs = mset ys \<Longrightarrow> length (filter P xs) = length (filter P ys)"
  by (metis mset_filter size_mset)

section \<open>The root after a splay\<close>

lemma search_path_eq_Nil: "search_path v n = [] \<longleftrightarrow> n = nil"
  by (cases n) simp_all

lemma splay_root_last: "n \<noteq> nil \<Longrightarrow> Value (splay v n) = last (search_path v n)"
proof (induction n rule: splay_branches[where v = v])
  case nil
  then show ?case by simp
next
  case (eq nv nl nr)
  then show ?case by simp
next
  case (lt_nil nv nr)
  then show ?case by simp
next
  case (zigzag_l nv n1v n1l n1r nr n2v n2l n2r)
  then show ?case by (simp add: search_path_eq_Nil)
next
  case (zigzig_l nv n1v n1l n1r nr n2v n2l n2r)
  then show ?case by (simp add: search_path_eq_Nil)
next
  case (zig_l nv n1v n1l n1r nr)
  then show ?case by (auto simp add: search_path_eq_Nil)
next
  case (gt_nil nv nl)
  then show ?case by simp
next
  case (zigzag_r nv nl n1v n1l n1r n2v n2l n2r)
  then show ?case by (simp add: search_path_eq_Nil)
next
  case (zigzig_r nv nl n1v n1l n1r n2v n2l n2r)
  then show ?case by (simp add: search_path_eq_Nil)
next
  case (zig_r nv nl n1v n1l n1r)
  then show ?case by (auto simp add: search_path_eq_Nil)
qed

lemma search_path_equal_last:
  "x \<in> set (search_path v n) \<Longrightarrow> v x = 0 \<Longrightarrow> v (last (search_path v n)) = 0"
proof (induction n)
  case nil
  then show ?case by simp
next
  case (Node nv nl nr)
  then show ?case by (auto simp: search_path_eq_Nil split: if_splits)
qed

lemma splay_finds_key:
  assumes t: "total_order C" and m: "monotone_key C v" and b: "bst C n"
    and s: "splay v n = Node rv rl rr" and p: "x \<in> set (inorder n)" "v x = 0"
  shows "v rv = 0"
proof (rule ccontr)
  assume ne: "v rv \<noteq> 0"
  have bs: "bst C (Node rv rl rr)" using bst_splay[OF t b, of v] s by simp
  then have sub: "\<forall>z\<in>set (inorder rl). C z rv \<le> 0" "\<forall>z\<in>set (inorder rr). 0 \<le> C z rv"
    by auto
  have rb: "root_bounds v (Node rv rl rr)"
    using splay_root_bounds[OF m t b] s by simp
  have "\<forall>z\<in>set (inorder n). v z \<noteq> 0"
  proof (cases "v rv < 0")
    case True
    have "\<forall>z\<in>set (inorder rl). 0 < v z" using rb True by (simp add: root_bounds_def)
    moreover have "\<forall>z\<in>set (inorder rr). v z < 0" using key_right[OF t m sub(2) True] .
    ultimately show ?thesis using ne unfolding inorder_splay_Node[OF s] by fastforce
  next
    case False
    then have gt: "0 < v rv" using ne by simp
    have "\<forall>z\<in>set (inorder rr). v z < 0" using rb gt by (simp add: root_bounds_def)
    moreover have "\<forall>z\<in>set (inorder rl). 0 < v z" using key_left[OF m sub(1) gt] .
    ultimately show ?thesis using ne unfolding inorder_splay_Node[OF s] by fastforce
  qed
  with p show False by blast
qed

section \<open>Extremes of an ordered sequence\<close>

lemma splay_greatestValue_last:
  "n \<noteq> nil \<Longrightarrow> Value (splay greatestValue n) = last (inorder n)"
proof -
  assume "n \<noteq> nil"
  then obtain mv ml mr where g: "splay greatestValue n = Node mv ml mr"
    by (rule splay_obtain)
  then have "mr = nil" by (rule splay_greatestValue_Right)
  then show ?thesis using g inorder_splay_Node[OF g] by simp
qed

lemma non_descending_last:
  assumes t: "total_order C" and s: "non_descending C xs"
  shows "\<forall>x\<in>set xs. C x (last xs) \<le> 0"
proof (cases xs rule: rev_cases)
  case Nil
  then show ?thesis by simp
next
  case (snoc ys y)
  then show ?thesis using s total_order_refl[OF t, of y]
    by (auto simp: non_descending_def sorted_wrt_append)
qed

lemma non_descending_hd:
  assumes t: "total_order C" and s: "non_descending C xs"
  shows "\<forall>x\<in>set xs. C (hd xs) x \<le> 0"
proof (cases xs)
  case Nil
  then show ?thesis by simp
next
  case (Cons y ys)
  then show ?thesis using s total_order_refl[OF t, of y]
    by (auto simp: non_descending_def)
qed

lemma Len_Delete_any:
  "Len (Delete C v t) = Len t \<or> Len (Delete C v t) + 1 = Len t"
proof (cases "Root t = nil")
  case True
  then show ?thesis by (simp add: Root_Delete_nil)
next
  case False
  then obtain rv rl rr where s: "splay (C v) (Root t) = Node rv rl rr"
    by (rule splay_obtain)
  show ?thesis
    unfolding Len_def Len_node_inorder inorder_Delete[where C = C and x = v, OF False s]
      inorder_splay_Node[OF s] by simp
qed

lemma mset_inorder_Insert:
  "mset (inorder (Root (Insert C v t))) = add_mset v (mset (inorder (Root t)))"
proof (cases "Root t = nil")
  case True
  then show ?thesis by (simp add: Root_Insert_nil)
next
  case False
  then obtain rv rl rr where s: "splay (C v) (Root t) = Node rv rl rr"
    by (rule splay_obtain)
  show ?thesis
    unfolding inorder_Insert[where C = C and x = v, OF False s] inorder_splay_Node[OF s]
    by simp
qed

section \<open>Walks and traversal\<close>

lemma Min_loop_hd: "Min_loop nv nl = hd (inorder nl @ [nv])"
proof (induction nl arbitrary: nv)
  case nil
  show ?case by simp
next
  case (Node lv ll lr)
  show ?case using Node.IH(1)[of lv] by (cases "inorder ll") simp_all
qed

lemma Max_loop_last: "Max_loop nv nr = last (nv # inorder nr)"
  by (induction nr arbitrary: nv) simp_all

lemma Min_Tree_hd: "Root t \<noteq> nil \<Longrightarrow> Min_Tree z t = hd (inorder (Root t))"
  by (cases "Root t") (simp_all add: Min_Tree_def Min_loop_hd hd_append)

lemma Max_Tree_last: "Root t \<noteq> nil \<Longrightarrow> Max_Tree z t = last (inorder (Root t))"
  by (cases "Root t") (simp_all add: Max_Tree_def Max_loop_last)

lemma inorder_eq_Nil: "inorder n = [] \<longleftrightarrow> n = nil"
  by (cases n) simp_all

lemma visit_all_append:
  "visit_all f (xs @ ys) s =
   (case visit_all f xs s of (False, s1) \<Rightarrow> (False, s1) | (True, s1) \<Rightarrow> visit_all f ys s1)"
  by (induction xs arbitrary: s) (auto split: prod.splits bool.splits)

lemma Iterate_node_visit_all: "Iterate_node f n s = visit_all f (inorder n) s"
proof (induction n arbitrary: s)
  case nil
  show ?case by simp
next
  case (Node nv nl nr)
  show ?case
    by (auto simp: visit_all_append Node.IH split: prod.splits bool.splits)
qed

lemma visit_all_log:
  "snd (visit_all (\<lambda>x log. (p x, log @ [x])) xs log0) =
   log0 @ takeWhile p xs @ take 1 (dropWhile p xs)"
  by (induction xs arbitrary: log0) simp_all

lemma visit_all_log_all:
  "snd (visit_all (\<lambda>x log. (True, log @ [x])) xs log0) = log0 @ xs"
  by (induction xs arbitrary: log0) simp_all

section \<open>Ordering invariant\<close>

text \<open>
  Claim C1. After every sequence of \<open>Insert\<close> and \<open>Delete\<close> calls on an initially
  empty tree, the tree satisfies the ordering invariant: in every node, the left subtree
  holds only values \<open>\<le>\<close> the node's value and the right subtree only values \<open>\<ge>\<close> it,
  and the in-order traversal is non-descending under \<open>Compare\<close>. \<open>Compare\<close> is assumed
  to be a consistent total order, as the interface requires.
\<close>

theorem ordering_invariant:
  "total_order Compare \<Longrightarrow>
   bst Compare (Root (run Compare calls empty_Tree)) \<and>
   non_descending Compare (inorder (Root (run Compare calls empty_Tree)))"
  using bst_run[OF _ bst_empty_Tree, of Compare calls]
  by (simp add: bst_non_descending)

theorem ordering_invariant_witness:
  "total_order NumValue_Compare \<and>
   bst NumValue_Compare
     (Root (run NumValue_Compare [InsertCall 5, InsertCall 3, InsertCall 8, InsertCall 3, DeleteCall 5] empty_Tree)) \<and>
   non_descending NumValue_Compare
     (inorder (Root (run NumValue_Compare [InsertCall 5, InsertCall 3, InsertCall 8, InsertCall 3, DeleteCall 5] empty_Tree))) \<and>
   inorder (Root (run NumValue_Compare [InsertCall 5, InsertCall 3, InsertCall 8, InsertCall 3, DeleteCall 5] empty_Tree)) = [3, 3, 8]"
proof -
  have "inorder (Root (run NumValue_Compare [InsertCall 5, InsertCall 3, InsertCall 8, InsertCall 3, DeleteCall 5] empty_Tree)) = [3, 3, 8]"
    by code_simp
  then show ?thesis
    using ordering_invariant[OF total_order_NumValue, of "[InsertCall 5, InsertCall 3, InsertCall 8, InsertCall 3, DeleteCall 5]"]
      total_order_NumValue by simp
qed

section \<open>Multiset cardinality\<close>

text \<open>
  Claim C2. After every sequence of \<open>Insert\<close> and \<open>Delete\<close> calls on an initially
  empty tree, and for every value \<open>x\<close>, the number of nodes whose value compares equal
  to \<open>x\<close> is the number of \<open>Insert\<close> calls of a value equal to \<open>x\<close> minus the number of
  successful \<open>Delete\<close> calls of a value equal to \<open>x\<close>, where a \<open>Delete\<close> is successful
  exactly when a node equal to its value is present in the tree it is applied to. So
  \<open>Len\<close> is the number of \<open>Insert\<close> calls minus the number of successful \<open>Delete\<close>
  calls. (The subtractions are on natural numbers; the second and fourth conjunct say
  that they do not truncate.)
\<close>

theorem multiset_cardinality:
  assumes "total_order Compare"
  shows "count_equal Compare x (Root (run Compare calls empty_Tree)) =
      inserts_of Compare x calls - successful_deletes_of Compare x empty_Tree calls \<and>
    successful_deletes_of Compare x empty_Tree calls \<le> inserts_of Compare x calls \<and>
    Len (run Compare calls empty_Tree) =
      insert_calls calls - successful_delete_calls Compare empty_Tree calls \<and>
    successful_delete_calls Compare empty_Tree calls \<le> insert_calls calls"
  using count_equal_run[OF assms bst_empty_Tree, of x calls]
    Len_run[OF assms bst_empty_Tree, of calls]
  unfolding count_equal_empty_Tree Len_empty_Tree
  by - (intro conjI; linarith)

theorem multiset_cardinality_witness:
  "total_order NumValue_Compare \<and>
   count_equal NumValue_Compare 5
     (Root (run NumValue_Compare
        [InsertCall 5, InsertCall 3, DeleteCall 7, InsertCall 5, DeleteCall 5] empty_Tree)) = 1 \<and>
   inserts_of NumValue_Compare 5
     [InsertCall 5, InsertCall 3, DeleteCall 7, InsertCall 5, DeleteCall 5] = 2 \<and>
   successful_deletes_of NumValue_Compare 5 empty_Tree
     [InsertCall 5, InsertCall 3, DeleteCall 7, InsertCall 5, DeleteCall 5] = 1 \<and>
   Len (run NumValue_Compare
        [InsertCall 5, InsertCall 3, DeleteCall 7, InsertCall 5, DeleteCall 5] empty_Tree) = 2 \<and>
   insert_calls [InsertCall (5::int), InsertCall 3, DeleteCall 7, InsertCall 5, DeleteCall 5] = 3 \<and>
   successful_delete_calls NumValue_Compare empty_Tree
     [InsertCall 5, InsertCall 3, DeleteCall 7, InsertCall 5, DeleteCall 5] = 1"
proof -
  have i: "inserts_of NumValue_Compare 5
     [InsertCall 5, InsertCall 3, DeleteCall 7, InsertCall 5, DeleteCall 5] = 2"
    by (simp add: NumValue_Compare_def)
  have d: "successful_deletes_of NumValue_Compare 5 empty_Tree
     [InsertCall 5, InsertCall 3, DeleteCall 7, InsertCall 5, DeleteCall 5] = 1"
    by code_simp
  have ic: "insert_calls [InsertCall (5::int), InsertCall 3, DeleteCall 7, InsertCall 5, DeleteCall 5] = 3"
    by simp
  have dc: "successful_delete_calls NumValue_Compare empty_Tree
     [InsertCall 5, InsertCall 3, DeleteCall 7, InsertCall 5, DeleteCall 5] = 1"
    by code_simp
  show ?thesis
    using multiset_cardinality[OF total_order_NumValue, of 5
        "[InsertCall 5, InsertCall 3, DeleteCall 7, InsertCall 5, DeleteCall 5]"]
      total_order_NumValue i d ic dc by simp
qed

section \<open>Deleting an absent value\<close>

text \<open>
  Claim C3, as amended. For every tree and every value \<open>v\<close> that is not present in it,
  \<open>Delete(v)\<close> leaves \<open>Len()\<close> and the in-order sequence of values unchanged. The
  claim as stated also promises the same \<open>Height()\<close>; \<open>Delete\<close> splays the tree toward
  \<open>v\<close> before it looks for a match, and the splay changes the shape of the tree, so the
  height can change: the last theorem of this section deletes 0 from the tree built by
  inserting 1, 2, 3, 4, whose height drops from 4 to 3.
\<close>

theorem Delete_absent_frame:
  assumes "total_order Compare" and "\<not> present Compare v t"
  shows "Len (Delete Compare v t) = Len t \<and>
    inorder (Root (Delete Compare v t)) = inorder (Root t)"
  using Delete_absent[OF assms] by (simp add: Len_def Len_node_inorder)

theorem Delete_absent_frame_witness:
  "total_order NumValue_Compare \<and>
   \<not> present NumValue_Compare 0
       (run NumValue_Compare [InsertCall 1, InsertCall 2, InsertCall 3, InsertCall 4] empty_Tree) \<and>
   Len (Delete NumValue_Compare 0
       (run NumValue_Compare [InsertCall 1, InsertCall 2, InsertCall 3, InsertCall 4] empty_Tree)) = 4 \<and>
   inorder (Root (Delete NumValue_Compare 0
       (run NumValue_Compare [InsertCall 1, InsertCall 2, InsertCall 3, InsertCall 4] empty_Tree))) = [1, 2, 3, 4]"
proof -
  have a: "\<not> present NumValue_Compare 0
       (run NumValue_Compare [InsertCall 1, InsertCall 2, InsertCall 3, InsertCall 4] empty_Tree)"
    by code_simp
  have l: "Len (run NumValue_Compare [InsertCall 1, InsertCall 2, InsertCall 3, InsertCall 4] empty_Tree) = 4"
    by code_simp
  have i: "inorder (Root (run NumValue_Compare [InsertCall 1, InsertCall 2, InsertCall 3, InsertCall 4] empty_Tree)) = [1, 2, 3, 4]"
    by code_simp
  show ?thesis
    using Delete_absent_frame[OF total_order_NumValue a] total_order_NumValue a l i by simp
qed

theorem Delete_absent_Height_counterexample:
  "\<not> present NumValue_Compare 0
       (run NumValue_Compare [InsertCall 1, InsertCall 2, InsertCall 3, InsertCall 4] empty_Tree) \<and>
   Height (run NumValue_Compare [InsertCall 1, InsertCall 2, InsertCall 3, InsertCall 4] empty_Tree) = 4 \<and>
   Height (Delete NumValue_Compare 0
       (run NumValue_Compare [InsertCall 1, InsertCall 2, InsertCall 3, InsertCall 4] empty_Tree)) = 3"
  by code_simp

section \<open>What splay leaves at the root\<close>

text \<open>
  Claim C4. \<open>splay\<close> on an empty slot is a no-op. For every non-empty subtree and every
  search key, the slot is not empty afterwards and references the node at which the
  naive search path of the key ends (going left where the key compares less, right
  where it compares greater); in particular, if a node that compares equal to the key
  lies on that path, the new root compares equal to the key. In a subtree that
  satisfies the ordering invariant, for a key that is consistent with the order, that
  node is the closest to the key: no stored value lies strictly between the key and the
  new root (\<open>root_bounds\<close>), and the new root compares equal to the key whenever any
  stored value does.
\<close>

theorem splay_moves_path_end_to_root:
  "splay v nil = nil \<and>
   (n \<noteq> nil \<longrightarrow>
      splay v n \<noteq> nil \<and>
      Value (splay v n) = last (search_path v n) \<and>
      ((\<exists>x\<in>set (search_path v n). v x = 0) \<longrightarrow> v (Value (splay v n)) = 0)) \<and>
   (n \<noteq> nil \<and> total_order Compare \<and> monotone_key Compare v \<and> bst Compare n \<longrightarrow>
      root_bounds v (splay v n) \<and>
      ((\<exists>x\<in>set (inorder n). v x = 0) \<longrightarrow> v (Value (splay v n)) = 0))"
proof (intro conjI impI)
  show "splay v nil = nil" by simp
next
  assume "n \<noteq> nil"
  then show "splay v n \<noteq> nil" by (simp add: splay_eq_nil)
next
  assume "n \<noteq> nil"
  then show "Value (splay v n) = last (search_path v n)" by (rule splay_root_last)
next
  assume "n \<noteq> nil" and "\<exists>x\<in>set (search_path v n). v x = 0"
  then show "v (Value (splay v n)) = 0"
    using search_path_equal_last[of _ v n] by (auto simp: splay_root_last)
next
  assume "n \<noteq> nil \<and> total_order Compare \<and> monotone_key Compare v \<and> bst Compare n"
  then show "root_bounds v (splay v n)" using splay_root_bounds by blast
next
  assume a: "n \<noteq> nil \<and> total_order Compare \<and> monotone_key Compare v \<and> bst Compare n"
    and e: "\<exists>x\<in>set (inorder n). v x = 0"
  from a obtain rv rl rr where s: "splay v n = Node rv rl rr" by (metis splay_obtain)
  from e obtain x where "x \<in> set (inorder n)" "v x = 0" by blast
  then have "v rv = 0" using splay_finds_key[of Compare v n rv rl rr x] a s by blast
  then show "v (Value (splay v n)) = 0" using s by simp
qed

theorem splay_moves_path_end_to_root_witness:
  "Node 5 (Node 3 nil nil) (Node 8 nil nil) \<noteq> (nil :: int node) \<and>
   total_order NumValue_Compare \<and>
   monotone_key NumValue_Compare (NumValue_Compare 3) \<and>
   bst NumValue_Compare (Node 5 (Node 3 nil nil) (Node 8 nil nil)) \<and>
   search_path (NumValue_Compare 3) (Node 5 (Node 3 nil nil) (Node 8 nil nil)) = [5, 3] \<and>
   inorder (Node 5 (Node 3 nil nil) (Node 8 nil nil)) = [3, 5, 8 :: int] \<and>
   splay (NumValue_Compare 3) (Node 5 (Node 3 nil nil) (Node 8 nil nil)) =
     Node 3 nil (Node 5 nil (Node 8 nil nil)) \<and>
   NumValue_Compare 3 (Value (splay (NumValue_Compare 3) (Node 5 (Node 3 nil nil) (Node 8 nil nil)))) = 0 \<and>
   root_bounds (NumValue_Compare 3) (splay (NumValue_Compare 3) (Node 5 (Node 3 nil nil) (Node 8 nil nil)))"
proof -
  have m: "monotone_key NumValue_Compare (NumValue_Compare 3)"
    by (rule monotone_key_Compare[OF total_order_NumValue])
  have b: "bst NumValue_Compare (Node 5 (Node 3 nil nil) (Node 8 nil nil))"
    by (simp add: NumValue_Compare_def)
  have p: "search_path (NumValue_Compare 3) (Node 5 (Node 3 nil nil) (Node 8 nil nil)) = [5, 3]"
    by (simp add: NumValue_Compare_def)
  have s: "splay (NumValue_Compare 3) (Node 5 (Node 3 nil nil) (Node 8 nil nil)) =
     Node 3 nil (Node 5 nil (Node 8 nil nil))"
    by (simp add: NumValue_Compare_def)
  show ?thesis
    using splay_moves_path_end_to_root[of "NumValue_Compare 3" "Node 5 (Node 3 nil nil) (Node 8 nil nil)" NumValue_Compare]
      total_order_NumValue m b p s by (simp add: NumValue_Compare_def)
qed

section \<open>Delete\<close>

text \<open>
  Claim C5. For every tree and value \<open>v\<close>, \<open>Delete(v)\<close> removes at most one node, and
  only a node equal to \<open>v\<close>. On the empty tree it does nothing. Otherwise it splays
  toward \<open>v\<close>; when the value of the splayed root differs from \<open>v\<close> nothing is removed
  (the tree is left as splayed, with the same in-order sequence). When the splayed root
  matches: if it has no left child the new root is its right child; otherwise the left
  subtree is splayed toward the always-greater sentinel, which brings the last node of
  the left subtree in in-order (its maximum, in an ordered tree) to its top, with no
  right child, the old root's right subtree becomes the right child of that node, and
  that node becomes the new root. In both matching cases the in-order sequence loses
  exactly the splayed root.
\<close>

theorem Delete_cases:
  "(Root t = nil \<longrightarrow> Delete Compare v t = t) \<and>
   (Root t \<noteq> nil \<longrightarrow>
      (let r = splay (Compare v) (Root t); m = splay greatestValue (Left r) in
         r \<noteq> nil \<and>
         inorder (Root t) = inorder (Left r) @ Value r # inorder (Right r) \<and>
         (Compare v (Value r) \<noteq> 0 \<longrightarrow>
            Root (Delete Compare v t) = r \<and>
            inorder (Root (Delete Compare v t)) = inorder (Root t)) \<and>
         (Compare v (Value r) = 0 \<longrightarrow>
            inorder (Root (Delete Compare v t)) = inorder (Left r) @ inorder (Right r)) \<and>
         (Compare v (Value r) = 0 \<and> Left r = nil \<longrightarrow>
            Root (Delete Compare v t) = Right r) \<and>
         (Compare v (Value r) = 0 \<and> Left r \<noteq> nil \<longrightarrow>
            m \<noteq> nil \<and> Right m = nil \<and>
            Value m = last (inorder (Left r)) \<and>
            inorder (Left r) = inorder (Left m) @ [Value m] \<and>
            Root (Delete Compare v t) = Node (Value m) (Left m) (Right r) \<and>
            (total_order Compare \<and> bst Compare (Root t) \<longrightarrow>
               (\<forall>x\<in>set (inorder (Left r)). Compare x (Value m) \<le> 0))))) \<and>
   (Len (Delete Compare v t) = Len t \<or> Len (Delete Compare v t) + 1 = Len t)"
proof (intro conjI impI)
  show "Root t = nil \<Longrightarrow> Delete Compare v t = t" by (rule Root_Delete_nil)
next
  show "Len (Delete Compare v t) = Len t \<or> Len (Delete Compare v t) + 1 = Len t"
    by (rule Len_Delete_any)
next
  assume ne: "Root t \<noteq> nil"
  then obtain rv rl rr where s: "splay (Compare v) (Root t) = Node rv rl rr"
    by (rule splay_obtain)
  note R = Root_Delete_splay[where C = Compare and x = v, OF ne s]
  note I = inorder_Delete[where C = Compare and x = v, OF ne s]
  have match: "rl \<noteq> nil \<Longrightarrow>
      splay greatestValue rl \<noteq> nil \<and> Right (splay greatestValue rl) = nil \<and>
      Value (splay greatestValue rl) = last (inorder rl) \<and>
      inorder rl = inorder (Left (splay greatestValue rl)) @ [Value (splay greatestValue rl)]"
  proof -
    assume "rl \<noteq> nil"
    then obtain mv ml mr where g: "splay greatestValue rl = Node mv ml mr"
      by (rule splay_obtain)
    then have "mr = nil" by (rule splay_greatestValue_Right)
    then show ?thesis using g inorder_splay_Node[OF g] by simp
  qed
  have mx: "total_order Compare \<and> bst Compare (Root t) \<Longrightarrow> rl \<noteq> nil \<Longrightarrow>
      \<forall>x\<in>set (inorder rl). Compare x (Value (splay greatestValue rl)) \<le> 0"
  proof -
    assume a: "total_order Compare \<and> bst Compare (Root t)" and "rl \<noteq> nil"
    then have "bst Compare (Node rv rl rr)" using bst_splay[of Compare "Root t" "Compare v"] s by simp
    then have "non_descending Compare (inorder rl)" using a by (simp add: bst_non_descending)
    then have "\<forall>x\<in>set (inorder rl). Compare x (last (inorder rl)) \<le> 0"
      using non_descending_last[of Compare "inorder rl"] a by blast
    then show ?thesis by (simp only: splay_greatestValue_last[OF \<open>rl \<noteq> nil\<close>])
  qed
  show "let r = splay (Compare v) (Root t); m = splay greatestValue (Left r) in
         r \<noteq> nil \<and>
         inorder (Root t) = inorder (Left r) @ Value r # inorder (Right r) \<and>
         (Compare v (Value r) \<noteq> 0 \<longrightarrow>
            Root (Delete Compare v t) = r \<and>
            inorder (Root (Delete Compare v t)) = inorder (Root t)) \<and>
         (Compare v (Value r) = 0 \<longrightarrow>
            inorder (Root (Delete Compare v t)) = inorder (Left r) @ inorder (Right r)) \<and>
         (Compare v (Value r) = 0 \<and> Left r = nil \<longrightarrow>
            Root (Delete Compare v t) = Right r) \<and>
         (Compare v (Value r) = 0 \<and> Left r \<noteq> nil \<longrightarrow>
            m \<noteq> nil \<and> Right m = nil \<and>
            Value m = last (inorder (Left r)) \<and>
            inorder (Left r) = inorder (Left m) @ [Value m] \<and>
            Root (Delete Compare v t) = Node (Value m) (Left m) (Right r) \<and>
            (total_order Compare \<and> bst Compare (Root t) \<longrightarrow>
               (\<forall>x\<in>set (inorder (Left r)). Compare x (Value m) \<le> 0)))"
    unfolding Let_def s node.sel
  proof (intro conjI impI)
    show "Node rv rl rr \<noteq> nil" by simp
    show "inorder (Root t) = inorder rl @ rv # inorder rr" by (rule inorder_splay_Node[OF s])
    show "Compare v rv \<noteq> 0 \<Longrightarrow> Root (Delete Compare v t) = Node rv rl rr" by (simp add: R)
    show "Compare v rv \<noteq> 0 \<Longrightarrow> inorder (Root (Delete Compare v t)) = inorder (Root t)"
      by (simp add: I inorder_splay_Node[OF s])
    show "Compare v rv = 0 \<Longrightarrow> inorder (Root (Delete Compare v t)) = inorder rl @ inorder rr"
      by (simp add: I)
    show "Compare v rv = 0 \<and> rl = nil \<Longrightarrow> Root (Delete Compare v t) = rr" by (simp add: R)
    show "Compare v rv = 0 \<and> rl \<noteq> nil \<Longrightarrow> splay greatestValue rl \<noteq> nil"
      using match by blast
    show "Compare v rv = 0 \<and> rl \<noteq> nil \<Longrightarrow> Right (splay greatestValue rl) = nil"
      using match by blast
    show "Compare v rv = 0 \<and> rl \<noteq> nil \<Longrightarrow> Value (splay greatestValue rl) = last (inorder rl)"
      using match by blast
    show "Compare v rv = 0 \<and> rl \<noteq> nil \<Longrightarrow>
        inorder rl = inorder (Left (splay greatestValue rl)) @ [Value (splay greatestValue rl)]"
      using match by blast
    show "Compare v rv = 0 \<and> rl \<noteq> nil \<Longrightarrow>
        Root (Delete Compare v t) =
        Node (Value (splay greatestValue rl)) (Left (splay greatestValue rl)) rr"
      by (simp add: R)
    show "Compare v rv = 0 \<and> rl \<noteq> nil \<Longrightarrow> total_order Compare \<and> bst Compare (Root t) \<Longrightarrow>
        \<forall>x\<in>set (inorder rl). Compare x (Value (splay greatestValue rl)) \<le> 0"
      using mx by blast
  qed
qed

theorem Delete_cases_witness:
  "total_order NumValue_Compare \<and>
   bst NumValue_Compare (Root \<lparr>Root = Node 8 (Node 5 (Node 3 nil nil) nil) nil\<rparr>) \<and>
   Root \<lparr>Root = Node 8 (Node 5 (Node 3 nil nil) nil) nil\<rparr> \<noteq> (nil :: int node) \<and>
   splay (NumValue_Compare 5) (Node 8 (Node 5 (Node 3 nil nil) nil) nil) =
     Node 5 (Node 3 nil nil) (Node 8 nil nil) \<and>
   NumValue_Compare 5 5 = 0 \<and>
   Node 3 nil nil \<noteq> (nil :: int node) \<and>
   splay greatestValue (Node 3 nil nil) = Node (3::int) nil nil \<and>
   Root (Delete NumValue_Compare 5 \<lparr>Root = Node 8 (Node 5 (Node 3 nil nil) nil) nil\<rparr>) =
     Node 3 nil (Node 8 nil nil) \<and>
   inorder (Root (Delete NumValue_Compare 5 \<lparr>Root = Node 8 (Node 5 (Node 3 nil nil) nil) nil\<rparr>)) = [3, 8] \<and>
   Len (Delete NumValue_Compare 5 \<lparr>Root = Node 8 (Node 5 (Node 3 nil nil) nil) nil\<rparr>) + 1 =
     Len \<lparr>Root = Node 8 (Node 5 (Node 3 nil nil) nil) nil :: int node\<rparr> \<and>
   Delete NumValue_Compare 5 \<lparr>Root = nil\<rparr> = \<lparr>Root = nil\<rparr> \<and>
   Root (Delete NumValue_Compare 4 \<lparr>Root = Node 8 (Node 5 (Node 3 nil nil) nil) nil\<rparr>) =
     splay (NumValue_Compare 4) (Node 8 (Node 5 (Node 3 nil nil) nil) nil) \<and>
   Root (Delete NumValue_Compare 3 \<lparr>Root = Node 3 nil (Node 8 nil nil)\<rparr>) = Node 8 nil nil"
proof -
  let ?T = "\<lparr>Root = Node 8 (Node 5 (Node 3 nil nil) nil) nil :: int node\<rparr>"
  have b: "bst NumValue_Compare (Root ?T)" by (simp add: NumValue_Compare_def)
  have s: "splay (NumValue_Compare 5) (Node 8 (Node 5 (Node 3 nil nil) nil) nil) =
     Node 5 (Node 3 nil nil) (Node 8 nil nil)" by (simp add: NumValue_Compare_def)
  have g: "splay greatestValue (Node 3 nil nil) = Node (3::int) nil nil"
    by (simp add: greatestValue_def)
  have s4: "NumValue_Compare 4 (Value (splay (NumValue_Compare 4) (Node 8 (Node 5 (Node 3 nil nil) nil) nil))) \<noteq> 0"
    by (simp add: NumValue_Compare_def)
  have s3: "splay (NumValue_Compare 3) (Node 3 nil (Node 8 nil nil)) = Node 3 nil (Node 8 nil nil)"
    by (simp add: NumValue_Compare_def)
  have c: "NumValue_Compare 5 5 = 0" "NumValue_Compare 3 3 = 0" by (simp_all add: NumValue_Compare_def)
  show ?thesis
    using Delete_cases[of ?T NumValue_Compare 5]
      Delete_cases[of "\<lparr>Root = nil\<rparr>" NumValue_Compare 5]
      Delete_cases[of ?T NumValue_Compare 4]
      Delete_cases[of "\<lparr>Root = Node 3 nil (Node 8 nil nil)\<rparr>" NumValue_Compare 3]
      total_order_NumValue b s g s4 s3 c
    by (simp add: Let_def Len_def)
qed

section \<open>Insert\<close>

text \<open>
  Claim C6. For every tree and value \<open>v\<close>, \<open>Insert(v)\<close> succeeds and adds one node
  holding \<open>v\<close>, whether or not an equal value is stored already. On the empty tree \<open>v\<close>
  becomes the sole root. Otherwise the tree is splayed toward \<open>v\<close> and a new node holding
  \<open>v\<close> becomes the root: when \<open>v\<close> is less than or equal to the splayed root, the new
  node takes the old root's left subtree as its left child and the old root, with its
  left link cleared, as its right child, so a duplicate lands immediately left of the
  equal node in the in-order sequence; when \<open>v\<close> is greater, the mirror arrangement.
\<close>

theorem Insert_cases:
  "(Root t = nil \<longrightarrow> Root (Insert Compare v t) = Node v nil nil) \<and>
   (Root t \<noteq> nil \<longrightarrow>
      (let r = splay (Compare v) (Root t) in
         r \<noteq> nil \<and>
         inorder (Root t) = inorder (Left r) @ Value r # inorder (Right r) \<and>
         (Compare v (Value r) < 0 \<or> Compare v (Value r) = 0 \<longrightarrow>
            Root (Insert Compare v t) = Node v (Left r) (Node (Value r) nil (Right r)) \<and>
            inorder (Root (Insert Compare v t)) =
              inorder (Left r) @ v # Value r # inorder (Right r)) \<and>
         (0 < Compare v (Value r) \<longrightarrow>
            Root (Insert Compare v t) = Node v (Node (Value r) (Left r) nil) (Right r) \<and>
            inorder (Root (Insert Compare v t)) =
              inorder (Left r) @ Value r # v # inorder (Right r)))) \<and>
   Len (Insert Compare v t) = Len t + 1 \<and>
   mset (inorder (Root (Insert Compare v t))) = add_mset v (mset (inorder (Root t)))"
proof (intro conjI impI)
  show "Root t = nil \<Longrightarrow> Root (Insert Compare v t) = Node v nil nil" by (rule Root_Insert_nil)
next
  show "Len (Insert Compare v t) = Len t + 1" by (rule Len_Insert)
next
  show "mset (inorder (Root (Insert Compare v t))) = add_mset v (mset (inorder (Root t)))"
    by (rule mset_inorder_Insert)
next
  assume ne: "Root t \<noteq> nil"
  then obtain rv rl rr where s: "splay (Compare v) (Root t) = Node rv rl rr"
    by (rule splay_obtain)
  note R = Root_Insert_splay[where C = Compare and x = v, OF ne s]
  note I = inorder_Insert[where C = Compare and x = v, OF ne s]
  show "let r = splay (Compare v) (Root t) in
         r \<noteq> nil \<and>
         inorder (Root t) = inorder (Left r) @ Value r # inorder (Right r) \<and>
         (Compare v (Value r) < 0 \<or> Compare v (Value r) = 0 \<longrightarrow>
            Root (Insert Compare v t) = Node v (Left r) (Node (Value r) nil (Right r)) \<and>
            inorder (Root (Insert Compare v t)) =
              inorder (Left r) @ v # Value r # inorder (Right r)) \<and>
         (0 < Compare v (Value r) \<longrightarrow>
            Root (Insert Compare v t) = Node v (Node (Value r) (Left r) nil) (Right r) \<and>
            inorder (Root (Insert Compare v t)) =
              inorder (Left r) @ Value r # v # inorder (Right r))"
    unfolding Let_def s node.sel
  proof (intro conjI impI)
    show "Node rv rl rr \<noteq> nil" by simp
    show "inorder (Root t) = inorder rl @ rv # inorder rr" by (rule inorder_splay_Node[OF s])
    show "Compare v rv < 0 \<or> Compare v rv = 0 \<Longrightarrow>
        Root (Insert Compare v t) = Node v rl (Node rv nil rr)" by (auto simp add: R)
    show "Compare v rv < 0 \<or> Compare v rv = 0 \<Longrightarrow>
        inorder (Root (Insert Compare v t)) = inorder rl @ v # rv # inorder rr"
      by (auto simp add: I)
    show "0 < Compare v rv \<Longrightarrow> Root (Insert Compare v t) = Node v (Node rv rl nil) rr"
      by (simp add: R)
    show "0 < Compare v rv \<Longrightarrow>
        inorder (Root (Insert Compare v t)) = inorder rl @ rv # v # inorder rr"
      by (simp add: I)
  qed
qed

theorem Insert_cases_witness:
  "Root \<lparr>Root = Node 5 (Node 3 nil nil) (Node 8 nil nil)\<rparr> \<noteq> (nil :: int node) \<and>
   splay (NumValue_Compare 5) (Node 5 (Node 3 nil nil) (Node 8 nil nil)) =
     Node 5 (Node 3 nil nil) (Node 8 nil nil) \<and>
   NumValue_Compare 5 5 = 0 \<and>
   Root (Insert NumValue_Compare 5 \<lparr>Root = Node 5 (Node 3 nil nil) (Node 8 nil nil)\<rparr>) =
     Node 5 (Node 3 nil nil) (Node 5 nil (Node 8 nil nil)) \<and>
   inorder (Root (Insert NumValue_Compare 5 \<lparr>Root = Node 5 (Node 3 nil nil) (Node 8 nil nil)\<rparr>)) =
     [3, 5, 5, 8] \<and>
   Len (Insert NumValue_Compare 5 \<lparr>Root = Node 5 (Node 3 nil nil) (Node 8 nil nil)\<rparr>) = 4 \<and>
   Root (Insert NumValue_Compare 5 \<lparr>Root = nil\<rparr>) = Node 5 nil nil \<and>
   splay (NumValue_Compare 9) (Node 5 (Node 3 nil nil) (Node 8 nil nil)) =
     Node 8 (Node 5 (Node 3 nil nil) nil) nil \<and>
   0 < NumValue_Compare 9 8 \<and>
   Root (Insert NumValue_Compare 9 \<lparr>Root = Node 5 (Node 3 nil nil) (Node 8 nil nil)\<rparr>) =
     Node 9 (Node 8 (Node 5 (Node 3 nil nil) nil) nil) nil \<and>
   splay (NumValue_Compare 4) (Node 5 (Node 3 nil nil) (Node 8 nil nil)) =
     Node 3 nil (Node 5 nil (Node 8 nil nil)) \<and>
   Root (Insert NumValue_Compare 4 \<lparr>Root = Node 5 (Node 3 nil nil) (Node 8 nil nil)\<rparr>) =
     Node 4 (Node 3 nil nil) (Node 5 nil (Node 8 nil nil))"
proof -
  let ?T = "\<lparr>Root = Node 5 (Node 3 nil nil) (Node 8 nil nil) :: int node\<rparr>"
  have s5: "splay (NumValue_Compare 5) (Node 5 (Node 3 nil nil) (Node 8 nil nil)) =
     Node 5 (Node 3 nil nil) (Node 8 nil nil)" by (simp add: NumValue_Compare_def)
  have s9: "splay (NumValue_Compare 9) (Node 5 (Node 3 nil nil) (Node 8 nil nil)) =
     Node 8 (Node 5 (Node 3 nil nil) nil) nil" by (simp add: NumValue_Compare_def)
  have s4: "splay (NumValue_Compare 4) (Node 5 (Node 3 nil nil) (Node 8 nil nil)) =
     Node 3 nil (Node 5 nil (Node 8 nil nil))" by (simp add: NumValue_Compare_def)
  have c: "NumValue_Compare 5 5 = 0" "0 < NumValue_Compare 9 8" "0 < NumValue_Compare 4 3"
    by (simp_all add: NumValue_Compare_def)
  have l: "Len ?T = 3" by (simp add: Len_def)
  show ?thesis
    using Insert_cases[of ?T NumValue_Compare 5]
      Insert_cases[of "\<lparr>Root = nil\<rparr>" NumValue_Compare 5]
      Insert_cases[of ?T NumValue_Compare 9]
      Insert_cases[of ?T NumValue_Compare 4]
      s5 s9 s4 c l
    by (simp add: Let_def)
qed

section \<open>Min and Max\<close>

text \<open>
  Claim C7, as amended. In every tree reached by \<open>Insert\<close> and \<open>Delete\<close> calls from the
  empty tree, \<open>Min()\<close> and \<open>Max()\<close> return a stored value that is respectively \<open>\<le>\<close> and
  \<open>\<ge>\<close> every stored value when the tree is not empty, and return the empty indicator
  when it is empty. The claim as stated says that they return the indicator only if the
  tree is empty. The indicator is the zero value of the value type, which can itself be
  stored: the last theorem of this section inserts 0 into the empty tree of
  \<open>NumValue\<close>, and \<open>Min()\<close> and \<open>Max()\<close> of that non-empty tree are 0, as they are of
  the empty tree. Both functions read the tree and return a value; no tree is returned
  because none is written.
\<close>

theorem Min_Max_correct:
  assumes "total_order Compare" and "t = run Compare calls empty_Tree"
  shows "(Root t = nil \<longrightarrow> Min_Tree zeroVal t = zeroVal \<and> Max_Tree zeroVal t = zeroVal) \<and>
    (Root t \<noteq> nil \<longrightarrow>
       Min_Tree zeroVal t \<in> set (inorder (Root t)) \<and>
       (\<forall>x\<in>set (inorder (Root t)). Compare (Min_Tree zeroVal t) x \<le> 0) \<and>
       Max_Tree zeroVal t \<in> set (inorder (Root t)) \<and>
       (\<forall>x\<in>set (inorder (Root t)). Compare x (Max_Tree zeroVal t) \<le> 0))"
proof (intro conjI impI)
  assume "Root t = nil"
  then show "Min_Tree zeroVal t = zeroVal" "Max_Tree zeroVal t = zeroVal"
    by (simp_all add: Min_Tree_def Max_Tree_def)
next
  have "bst Compare (Root t)" unfolding assms(2) by (rule bst_run[OF assms(1) bst_empty_Tree])
  then have nd: "non_descending Compare (inorder (Root t))"
    by (simp add: bst_non_descending[OF assms(1)])
  assume ne: "Root t \<noteq> nil"
  then have ne': "inorder (Root t) \<noteq> []" by (simp add: inorder_eq_Nil)
  show "Min_Tree zeroVal t \<in> set (inorder (Root t))"
    using ne' by (simp add: Min_Tree_hd[OF ne])
  show "Max_Tree zeroVal t \<in> set (inorder (Root t))"
    using ne' by (simp add: Max_Tree_last[OF ne])
  show "\<forall>x\<in>set (inorder (Root t)). Compare (Min_Tree zeroVal t) x \<le> 0"
    unfolding Min_Tree_hd[OF ne] by (rule non_descending_hd[OF assms(1) nd])
  show "\<forall>x\<in>set (inorder (Root t)). Compare x (Max_Tree zeroVal t) \<le> 0"
    unfolding Max_Tree_last[OF ne] by (rule non_descending_last[OF assms(1) nd])
qed

theorem Min_Max_correct_witness:
  "total_order NumValue_Compare \<and>
   Root (run NumValue_Compare [InsertCall 5, InsertCall 3, InsertCall 8, InsertCall 3] empty_Tree) \<noteq> nil \<and>
   inorder (Root (run NumValue_Compare [InsertCall 5, InsertCall 3, InsertCall 8, InsertCall 3] empty_Tree)) = [3, 3, 5, 8] \<and>
   Min_Tree 0 (run NumValue_Compare [InsertCall 5, InsertCall 3, InsertCall 8, InsertCall 3] empty_Tree) = 3 \<and>
   Max_Tree 0 (run NumValue_Compare [InsertCall 5, InsertCall 3, InsertCall 8, InsertCall 3] empty_Tree) = 8 \<and>
   Root (run NumValue_Compare [InsertCall 5, DeleteCall 5] empty_Tree) = nil \<and>
   Min_Tree 0 (run NumValue_Compare [InsertCall 5, DeleteCall 5] empty_Tree) = 0 \<and>
   Max_Tree 0 (run NumValue_Compare [InsertCall 5, DeleteCall 5] empty_Tree) = 0"
proof -
  let ?cs = "[InsertCall 5, InsertCall 3, InsertCall 8, InsertCall 3 :: int call]"
  have i: "inorder (Root (run NumValue_Compare ?cs empty_Tree)) = [3, 3, 5, 8]" by code_simp
  have n: "Root (run NumValue_Compare ?cs empty_Tree) \<noteq> nil" by code_simp
  have e: "Root (run NumValue_Compare [InsertCall 5, DeleteCall 5] empty_Tree) = nil" by code_simp
  have mn: "Min_Tree 0 (run NumValue_Compare ?cs empty_Tree) = 3" by code_simp
  have mx: "Max_Tree 0 (run NumValue_Compare ?cs empty_Tree) = 8" by code_simp
  show ?thesis
    using Min_Max_correct[OF total_order_NumValue refl, of ?cs 0]
      Min_Max_correct[OF total_order_NumValue refl, of "[InsertCall 5, DeleteCall 5]" 0]
      total_order_NumValue i n e mn mx by simp
qed

theorem Min_Max_zero_counterexample:
  "Root (run NumValue_Compare [InsertCall 0] empty_Tree) \<noteq> nil \<and>
   Len (run NumValue_Compare [InsertCall 0] empty_Tree) = 1 \<and>
   Min_Tree 0 (run NumValue_Compare [InsertCall 0] empty_Tree) = 0 \<and>
   Max_Tree 0 (run NumValue_Compare [InsertCall 0] empty_Tree) = 0 \<and>
   Min_Tree 0 (empty_Tree :: int Tree) = 0 \<and>
   Max_Tree 0 (empty_Tree :: int Tree) = 0"
  by code_simp

section \<open>Round trip\<close>

text \<open>
  Claim C8. For every finite multiset of values, inserting all of them into an empty
  tree, in any order \<open>xs\<close>, and then deleting all of them, in any order \<open>ys\<close>, leaves
  the empty tree: \<open>Len() = 0\<close> and \<open>Height() = 0\<close>.
\<close>

theorem insert_all_delete_all:
  assumes "total_order Compare" and "mset xs = mset ys"
  shows "Root (run Compare (map DeleteCall ys) (run Compare (map InsertCall xs) empty_Tree)) = nil \<and>
    Len (run Compare (map DeleteCall ys) (run Compare (map InsertCall xs) empty_Tree)) = 0 \<and>
    Height (run Compare (map DeleteCall ys) (run Compare (map InsertCall xs) empty_Tree)) = 0"
proof -
  let ?t = "run Compare (map InsertCall xs) empty_Tree"
  have c: "count_equal Compare x (Root ?t) = length (filter (\<lambda>y. Compare y x = 0) ys)" for x
    using length_filter_mset[OF assms(2)] by (simp add: count_equal_inserts count_equal_empty_Tree)
  have "Root (run Compare (map DeleteCall ys) ?t) = nil"
    using deletes_all[OF assms(1) bst_inserts[OF assms(1)] c] .
  then show ?thesis by (simp add: Len_def Height_def)
qed

theorem insert_all_delete_all_witness:
  "total_order NumValue_Compare \<and> mset [5, 3, 8, 3 :: int] = mset [3, 8, 3, 5] \<and>
   Root (run NumValue_Compare (map DeleteCall [3, 8, 3, 5])
          (run NumValue_Compare (map InsertCall [5, 3, 8, 3]) empty_Tree)) = nil \<and>
   Len (run NumValue_Compare (map DeleteCall [3, 8, 3, 5])
          (run NumValue_Compare (map InsertCall [5, 3, 8, 3]) empty_Tree)) = 0 \<and>
   Height (run NumValue_Compare (map DeleteCall [3, 8, 3, 5])
          (run NumValue_Compare (map InsertCall [5, 3, 8, 3]) empty_Tree)) = 0"
proof -
  have m: "mset [5, 3, 8, 3 :: int] = mset [3, 8, 3, 5]" by simp
  show ?thesis
    using insert_all_delete_all[OF total_order_NumValue m] total_order_NumValue m by simp
qed

section \<open>Iterate\<close>

text \<open>
  Claim C9. For every tree and every visit function \<open>f\<close>, \<open>Iterate(f)\<close> calls \<open>f\<close> on
  the stored values in in-order, each node once, and makes no further call after one
  that returned false: it is the loop \<open>visit_all\<close> over the in-order sequence. With a
  visit function that records its argument and continues while \<open>p\<close> holds, the record is
  the in-order sequence up to and including the first value that fails \<open>p\<close>; with one
  that always continues, it is the whole in-order sequence. In a tree that satisfies the
  ordering invariant the in-order sequence is non-descending under \<open>Compare\<close>.
\<close>

theorem Iterate_in_order:
  "Iterate f t s = snd (visit_all f (inorder (Root t)) s) \<and>
   Iterate (\<lambda>x log. (p x, log @ [x])) t [] =
     takeWhile p (inorder (Root t)) @ take 1 (dropWhile p (inorder (Root t))) \<and>
   Iterate (\<lambda>x log. (True, log @ [x])) t [] = inorder (Root t) \<and>
   (total_order Compare \<and> bst Compare (Root t) \<longrightarrow>
      non_descending Compare (inorder (Root t)))"
  using visit_all_log[of p "inorder (Root t)" "[]"]
    visit_all_log_all[of "inorder (Root t)" "[]"]
  by (auto simp add: Iterate_def Iterate_node_visit_all bst_non_descending)

theorem Iterate_in_order_witness:
  "total_order NumValue_Compare \<and>
   bst NumValue_Compare (Root \<lparr>Root = Node 3 (Node 3 nil nil) (Node 5 nil (Node 8 nil nil))\<rparr>) \<and>
   Iterate (\<lambda>x log. (x < 5, log @ [x]))
     \<lparr>Root = Node 3 (Node 3 nil nil) (Node 5 nil (Node 8 nil nil))\<rparr> [] = [3, 3, 5 :: int] \<and>
   Iterate (\<lambda>x log. (True, log @ [x]))
     \<lparr>Root = Node 3 (Node 3 nil nil) (Node 5 nil (Node 8 nil nil))\<rparr> [] = [3, 3, 5, 8 :: int] \<and>
   Iterate (\<lambda>x n. (n < 1, n + 1))
     \<lparr>Root = Node 3 (Node 3 nil nil) (Node 5 nil (Node 8 nil nil)) :: int node\<rparr> (0 :: nat) = 2 \<and>
   non_descending NumValue_Compare [3, 3, 5, 8]"
proof -
  let ?T = "\<lparr>Root = Node 3 (Node 3 nil nil) (Node 5 nil (Node 8 nil nil)) :: int node\<rparr>"
  have b: "bst NumValue_Compare (Root ?T)" by (simp add: NumValue_Compare_def)
  show ?thesis
    using Iterate_in_order[of "\<lambda>x n. (n < 1, n + 1)" ?T "0 :: nat" "\<lambda>x. x < 5" NumValue_Compare]
      total_order_NumValue b by simp
qed

section \<open>Splay and the in-order sequence\<close>

text \<open>
  Claim C10. For every subtree and every search key, \<open>splay\<close> leaves the in-order
  sequence of values as it was: the same values, with the same multiplicities, in the
  same order. So the number of nodes and the ordered traversal are the same after any
  splay, the splay toward the greatest sentinel inside \<open>Delete\<close> included.
\<close>

theorem splay_preserves_inorder:
  "inorder (splay v n) = inorder n \<and>
   Len_node (splay v n) = Len_node n \<and>
   inorder (splay greatestValue n) = inorder n \<and>
   Len_node (splay greatestValue n) = Len_node n"
proof -
  have same: "inorder (splay w m) = inorder m" for w :: "'a \<Rightarrow> int" and m
  proof (induction m rule: splay_branches[where v = w])
    case nil
    show ?case by simp
  next
    case (eq nv nl nr)
    then show ?case by simp
  next
    case (lt_nil nv nr)
    then show ?case by simp
  next
    case (zigzag_l nv n1v n1l n1r nr n2v n2l n2r)
    then show ?case by simp
  next
    case (zigzig_l nv n1v n1l n1r nr n2v n2l n2r)
    then show ?case by simp
  next
    case (zig_l nv n1v n1l n1r nr)
    then show ?case by simp
  next
    case (gt_nil nv nl)
    then show ?case by simp
  next
    case (zigzag_r nv nl n1v n1l n1r n2v n2l n2r)
    then show ?case by simp
  next
    case (zigzig_r nv nl n1v n1l n1r n2v n2l n2r)
    then show ?case by simp
  next
    case (zig_r nv nl n1v n1l n1r)
    then show ?case by simp
  qed
  have "inorder (splay v n) = inorder n" and "inorder (splay greatestValue n) = inorder n"
    by (rule same)+
  then show ?thesis by (simp add: Len_node_inorder)
qed

end
